theory Spec2Isabelle
  imports Main "HOL-Library.Char_ord" "HOL-Library.List_Lexorder" "HOL-Library.Word"
begin

section \<open>Strings and the standard library\<close>

text \<open>
  A Go string is a sequence of bytes, here a \<open>string\<close> (a list of \<open>char\<close>, one per byte).
  With \<open>Char_ord\<close> and \<open>List_Lexorder\<close> the order \<open>\<le>\<close> on \<open>string\<close> is the byte-wise
  lexicographic order, which is the order of Go's \<^verbatim>\<open><\<close> and \<^verbatim>\<open>>=\<close> on strings and of
  \<^verbatim>\<open>sort.Strings\<close>.

  \<^verbatim>\<open>lists/list_cache.go\<close> calls into Go's standard library. The functions whose result
  depends on Unicode tables or on the syntax of IP literals are not part of the repository;
  they are the fields of \<open>stdlib\<close> and every definition below takes them as a parameter:
  \<^item> \<open>FieldsFunc_IsSpace\<close>: \<^verbatim>\<open>strings.FieldsFunc(s, unicode.IsSpace)\<close>, which
    \<^verbatim>\<open>strings.Fields\<close> calls when \<open>s\<close> has a byte \<open>\<ge> 0x80\<close>;
  \<^item> \<open>Map_ToLower\<close>: \<^verbatim>\<open>strings.Map(unicode.ToLower, s)\<close>, which \<^verbatim>\<open>strings.ToLower\<close> calls
    when \<open>s\<close> has a byte \<open>\<ge> 0x80\<close>;
  \<^item> \<open>ParseIP\<close>: \<^verbatim>\<open>net.ParseIP\<close>, \<open>None\<close> for Go's \<^verbatim>\<open>nil\<close>;
  \<^item> \<open>IP_String\<close>: \<^verbatim>\<open>net.IP.String\<close>.
  The ASCII paths of \<^verbatim>\<open>strings.ToLower\<close> and \<^verbatim>\<open>strings.Fields\<close> are written out.
\<close>

type_synonym IP = "nat list"

record stdlib =
  FieldsFunc_IsSpace :: "string \<Rightarrow> string list"
  Map_ToLower :: "string \<Rightarrow> string"
  ParseIP :: "string \<Rightarrow> IP option"
  IP_String :: "IP \<Rightarrow> string"

definition isASCII :: "string \<Rightarrow> bool" where
  "isASCII s = list_all (\<lambda>c. of_char c < (128::nat)) s"

definition lowerByte :: "char \<Rightarrow> char" where
  "lowerByte c = (if CHR ''A'' \<le> c \<and> c \<le> CHR ''Z'' then char_of (of_char c + (32::nat)) else c)"

definition ToLower :: "stdlib \<Rightarrow> string \<Rightarrow> string" where
  "ToLower L s = (if isASCII s then map lowerByte s else Map_ToLower L s)"

text \<open>\<^verbatim>\<open>asciiSpace\<close> of package strings: tab, newline, vertical tab, form feed, carriage
  return and space.\<close>

definition asciiSpace :: "char \<Rightarrow> bool" where
  "asciiSpace c = (of_char c \<in> {9, 10, 11, 12, 13, 32 :: nat})"

function fieldsASCII :: "string \<Rightarrow> string list" where
  "fieldsASCII s =
     (case dropWhile asciiSpace s of
        [] \<Rightarrow> []
      | c # cs \<Rightarrow> (c # takeWhile (\<lambda>x. \<not> asciiSpace x) cs)
                  # fieldsASCII (dropWhile (\<lambda>x. \<not> asciiSpace x) cs))"
  by pat_completeness auto
termination
proof (relation "measure length")
  show "wf (measure length)" by simp
next
  fix s :: string and c cs
  assume "dropWhile asciiSpace s = c # cs"
  then have "length (c # cs) \<le> length s"
    by (metis length_dropWhile_le)
  moreover have "length (dropWhile (\<lambda>x. \<not> asciiSpace x) cs) \<le> length cs"
    by (rule length_dropWhile_le)
  ultimately show "(dropWhile (\<lambda>x. \<not> asciiSpace x) cs, s) \<in> measure length"
    by simp
qed

declare fieldsASCII.simps [simp del]

definition Fields :: "stdlib \<Rightarrow> string \<Rightarrow> string list" where
  "Fields L s = (if isASCII s then fieldsASCII s else FieldsFunc_IsSpace L s)"

definition HasPrefix :: "string \<Rightarrow> string \<Rightarrow> bool" where
  "HasPrefix s prefix = (length prefix \<le> length s \<and> take (length prefix) s = prefix)"

definition TrimPrefix :: "string \<Rightarrow> string \<Rightarrow> string" where
  "TrimPrefix s prefix = (if HasPrefix s prefix then drop (length prefix) s else s)"

section \<open>Binary search: \<^verbatim>\<open>sort.Search\<close> and \<^verbatim>\<open>sort.SearchStrings\<close>\<close>

text \<open>
  Reading a slice out of range panics in Go. The index expression is \<open>index\<close>, the panic
  is the value \<open>Inl IndexOutOfRange\<close>, and every function that reads a slice returns a sum.
\<close>

datatype panic = IndexOutOfRange

definition index :: "'a list \<Rightarrow> nat \<Rightarrow> panic + 'a" where
  "index xs i = (if i < length xs then Inr (xs ! i) else Inl IndexOutOfRange)"

text \<open>
  \<^verbatim>\<open>sort.Search(n, f)\<close>: the loop \<^verbatim>\<open>for i < j { h := int(uint(i+j) >> 1); if !f(h) { i = h + 1 }
  else { j = h } }\<close> with \<open>i = 0\<close> and \<open>j = n\<close> at the start. The length of a slice is below
  \<open>2^63\<close>, so \<open>i + j\<close> read as an unsigned word is the sum and the shift is \<open>div 2\<close>.
\<close>

function SearchLoop :: "(nat \<Rightarrow> panic + bool) \<Rightarrow> nat \<Rightarrow> nat \<Rightarrow> panic + nat" where
  "SearchLoop f i j =
     (if i < j then
        (let h = (i + j) div 2 in
         case f h of
           Inl e \<Rightarrow> Inl e
         | Inr b \<Rightarrow> if \<not> b then SearchLoop f (h + 1) j else SearchLoop f i h)
      else Inr i)"
  by pat_completeness auto
termination
  by (relation "measure (\<lambda>(f, i, j). j - i)") auto

declare SearchLoop.simps [simp del]

definition Search :: "nat \<Rightarrow> (nat \<Rightarrow> panic + bool) \<Rightarrow> panic + nat" where
  "Search n f = SearchLoop f 0 n"

definition SearchStrings :: "string list \<Rightarrow> string \<Rightarrow> panic + nat" where
  "SearchStrings a x =
     Search (length a) (\<lambda>i. case index a i of Inl e \<Rightarrow> Inl e | Inr s \<Rightarrow> Inr (x \<le> s))"

section \<open>The list cache: \<^verbatim>\<open>lists/list_cache.go\<close>\<close>

text \<open>
  \<^verbatim>\<open>ListCache\<close>: \<open>groupCaches\<close> is the Go map from a group to its vector, \<open>groupToLinks\<close>
  the configured sources of every group, in the order in which \<^verbatim>\<open>range\<close> visits them,
  \<open>refreshPeriod\<close> a \<^verbatim>\<open>time.Duration\<close>: a signed 64-bit count of nanoseconds. The lock
  and the metrics counter hold no data of the cache.
\<close>

record ListCache =
  groupCaches :: "string \<rightharpoonup> string list"
  groupToLinks :: "(string \<times> string list) list"
  refreshPeriod :: "64 word"

text \<open>Reading a Go map at a key it does not hold gives the zero value, the \<^verbatim>\<open>nil\<close> slice.\<close>

definition cacheOf :: "ListCache \<Rightarrow> string \<Rightarrow> string list" where
  "cacheOf b g = (case groupCaches b g of None \<Rightarrow> [] | Some cache \<Rightarrow> cache)"

definition contains :: "stdlib \<Rightarrow> string \<Rightarrow> string list \<Rightarrow> panic + bool" where
  "contains L domain cache =
     (case SearchStrings cache domain of
        Inl e \<Rightarrow> Inl e
      | Inr idx \<Rightarrow>
          if idx < length cache then
            (case index cache idx of Inl e \<Rightarrow> Inl e | Inr s \<Rightarrow> Inr (s = ToLower L domain))
          else Inr False)"

fun Match :: "stdlib \<Rightarrow> ListCache \<Rightarrow> string \<Rightarrow> string list \<Rightarrow> panic + (bool \<times> string)" where
  "Match L b domain [] = Inr (False, '''')"
| "Match L b domain (g # groupsToCheck) =
     (case contains L domain (cacheOf b g) of
        Inl e \<Rightarrow> Inl e
      | Inr found \<Rightarrow> if found then Inr (True, g) else Match L b domain groupsToCheck)"

text \<open>
  \<^verbatim>\<open>processLine\<close>: the last field of the line, as \<^verbatim>\<open>ip.String()\<close> when \<^verbatim>\<open>net.ParseIP\<close>
  accepts it and lower-cased otherwise; the empty string for a line with no field.
\<close>

definition processLine :: "stdlib \<Rightarrow> string \<Rightarrow> string" where
  "processLine L line =
     (let parts = Fields L line in
      if length parts > 0 then
        (let host = last parts in
         case ParseIP L host of
           Some ip \<Rightarrow> IP_String L ip
         | None \<Rightarrow> ToLower L host)
      else '''')"

text \<open>
  The world outside the process, at one instant: what \<^verbatim>\<open>client.Get(link)\<close> and
  \<^verbatim>\<open>os.Open(file)\<close> give. \<open>None\<close> is an error of the call; \<open>Some lines\<close> is a reader
  from which \<^verbatim>\<open>bufio.Scanner\<close> yields \<open>lines\<close>, one \<^verbatim>\<open>scanner.Text()\<close> per
  \<^verbatim>\<open>scanner.Scan()\<close>, up to the end of the input or the scanner's first error.
\<close>

record world =
  httpGet :: "string \<Rightarrow> string list option"
  osOpen :: "string \<Rightarrow> string list option"

definition downloadFile :: "world \<Rightarrow> string \<Rightarrow> string list option" where
  "downloadFile W link = httpGet W link"

definition readFile :: "world \<Rightarrow> string \<Rightarrow> string list option" where
  "readFile W file = osOpen W (TrimPrefix file ''file://'')"

text \<open>The loop \<^verbatim>\<open>for scanner.Scan() { ... }\<close> of \<^verbatim>\<open>processFile\<close>, \<open>result\<close> its accumulator.\<close>

fun scanLoop :: "stdlib \<Rightarrow> string list \<Rightarrow> string list \<Rightarrow> string list" where
  "scanLoop L [] result = result"
| "scanLoop L (line # rest) result =
     (if \<not> HasPrefix line ''#'' then scanLoop L rest (result @ [processLine L line])
      else scanLoop L rest result)"

text \<open>
  \<^verbatim>\<open>processFile\<close>: \<open>Some result\<close> is the slice sent on the channel; \<open>None\<close> is the return
  before anything is sent, when the source cannot be opened.
\<close>

definition processFile :: "stdlib \<Rightarrow> world \<Rightarrow> string \<Rightarrow> string list option" where
  "processFile L W link =
     (case (if HasPrefix link ''http'' then downloadFile W link else readFile W link) of
        None \<Rightarrow> None
      | Some lines \<Rightarrow> Some (scanLoop L lines []))"

text \<open>
  \<^verbatim>\<open>createCacheForGroup\<close>. After \<^verbatim>\<open>wg.Wait()\<close> the channel holds the slices the fetches
  sent, in the order in which they finished. \<open>mergeEntries\<close> is the inner loop over one
  received slice, \<open>drain\<close> the loop that empties the channel; both carry the pair of
  \<open>keys\<close> and \<open>cache\<close>.
\<close>

fun mergeEntries :: "string list \<Rightarrow> string set \<times> string list \<Rightarrow> string set \<times> string list" where
  "mergeEntries [] (keys, cache) = (keys, cache)"
| "mergeEntries (entry # res) (keys, cache) =
     (if entry \<notin> keys then mergeEntries res (insert entry keys, cache @ [entry])
      else mergeEntries res (keys, cache))"

fun drain :: "string list list \<Rightarrow> string set \<times> string list \<Rightarrow> string set \<times> string list" where
  "drain [] acc = acc"
| "drain (res # c) acc = drain c (mergeEntries res acc)"

definition cacheFromChannel :: "string list list \<Rightarrow> string list" where
  "cacheFromChannel c = sort (snd (drain c ({}, [])))"

text \<open>The slices sent for the links of a group, here in the order of the links.\<close>

definition sentResults :: "stdlib \<Rightarrow> world \<Rightarrow> string list \<Rightarrow> string list list" where
  "sentResults L W links = List.map_filter (processFile L W) links"

definition createCacheForGroup :: "stdlib \<Rightarrow> world \<Rightarrow> string list \<Rightarrow> string list" where
  "createCacheForGroup L W links = cacheFromChannel (sentResults L W links)"

text \<open>\<^verbatim>\<open>refresh\<close>: the loop over \<open>groupToLinks\<close>, writing \<open>groupCaches\<close>.\<close>

fun refreshLoop ::
  "stdlib \<Rightarrow> world \<Rightarrow> (string \<times> string list) list \<Rightarrow> (string \<rightharpoonup> string list) \<Rightarrow> (string \<rightharpoonup> string list)" where
  "refreshLoop L W [] caches = caches"
| "refreshLoop L W ((grp, links) # rest) caches =
     refreshLoop L W rest (caches(grp \<mapsto> createCacheForGroup L W links))"

definition refresh :: "stdlib \<Rightarrow> world \<Rightarrow> ListCache \<Rightarrow> ListCache" where
  "refresh L W b = b\<lparr>groupCaches := refreshLoop L W (groupToLinks b) (groupCaches b)\<rparr>"

text \<open>Durations of package time, in nanoseconds.\<close>

definition Minute :: "64 word" where
  "Minute = 60000000000"

definition Hour :: "64 word" where
  "Hour = 60 * Minute"

definition defaultRefreshPeriod :: "64 word" where
  "defaultRefreshPeriod = 4 * Hour"

datatype ListCacheType = BLACKLIST | WHITELIST

text \<open>
  \<^verbatim>\<open>NewListCache\<close>, up to the start of \<^verbatim>\<open>periodicUpdate\<close>. \<open>refreshPeriod\<close> is a Go
  \<^verbatim>\<open>int\<close>, 64 bits wide; \<^verbatim>\<open>time.Duration(refreshPeriod) * time.Minute\<close> is a product of
  64-bit words and wraps around. The type \<open>t\<close> only names the metrics gauge.
\<close>

definition NewListCache ::
  "stdlib \<Rightarrow> world \<Rightarrow> ListCacheType \<Rightarrow> (string \<times> string list) list \<Rightarrow> 64 word \<Rightarrow> ListCache" where
  "NewListCache L W t links refreshPeriod' =
     (let p = (if refreshPeriod' = 0 then defaultRefreshPeriod else refreshPeriod' * Minute)
      in refresh L W \<lparr>groupCaches = Map.empty, groupToLinks = links, refreshPeriod = p\<rparr>)"

text \<open>
  \<^verbatim>\<open>periodicUpdate\<close>. A ticker of period \<open>d > 0\<close> created at instant 0 delivers its ticks at
  \<open>d, 2 * d, ...\<close>; \<open>tickerTimes d T\<close> are those up to the instant \<open>T\<close> (nanoseconds).
  \<open>refreshTimes\<close> are the instants at which the loop of \<^verbatim>\<open>periodicUpdate\<close> calls
  \<^verbatim>\<open>refresh\<close>: none when \<open>refreshPeriod\<close> is not positive. The loop never returns;
  \<open>periodicUpdate\<close> gives the cache as it stands at the instant \<open>T\<close>, with \<open>Wt t\<close> the world
  at the instant \<open>t\<close>.
\<close>

definition tickerTimes :: "int \<Rightarrow> int \<Rightarrow> int list" where
  "tickerTimes d T = map (\<lambda>k. int k * d) [1..<Suc (nat (T div d))]"

definition refreshTimes :: "ListCache \<Rightarrow> int \<Rightarrow> int list" where
  "refreshTimes cache T =
     (if 0 < sint (refreshPeriod cache) then tickerTimes (sint (refreshPeriod cache)) T else [])"

definition periodicUpdate :: "stdlib \<Rightarrow> (int \<Rightarrow> world) \<Rightarrow> ListCache \<Rightarrow> int \<Rightarrow> ListCache" where
  "periodicUpdate L Wt cache T = fold (\<lambda>t b. refresh L (Wt t) b) (refreshTimes cache T) cache"

section \<open>An instance of the standard library\<close>

text \<open>
  Concrete inputs are evaluated with \<open>hostsLib\<close>, an instance of \<open>stdlib\<close> for list sources
  in ASCII whose IP literals are dotted quads. Its \<open>ParseIP\<close> follows \<^verbatim>\<open>net.ParseIP\<close>: the
  first \<^verbatim>\<open>.\<close> or \<^verbatim>\<open>:\<close> of the string decides between \<^verbatim>\<open>parseIPv4\<close> and
  \<^verbatim>\<open>parseIPv6\<close>, and a string with neither is no IP. \<^verbatim>\<open>parseIPv4\<close> and \<^verbatim>\<open>dtoi\<close> are
  written out; the instance has no IPv6 literals (\<open>None\<close> there), keeps the four bytes of
  an address and prints them in decimal, separated by dots, as \<^verbatim>\<open>IP.String\<close> prints an
  IPv4 address. On a string with a byte \<open>\<ge> 0x80\<close> the instance lower-cases and splits
  byte-wise.
\<close>

definition big :: nat where
  "big = 16777215"

definition isDigit :: "char \<Rightarrow> bool" where
  "isDigit c = (CHR ''0'' \<le> c \<and> c \<le> CHR ''9'')"

fun dtoiLoop :: "string \<Rightarrow> nat \<Rightarrow> nat \<Rightarrow> nat \<times> nat \<times> bool" where
  "dtoiLoop [] n i = (if i = 0 then (0, 0, False) else (n, i, True))"
| "dtoiLoop (c # s) n i =
     (if isDigit c then
        (let n' = n * 10 + (of_char c - 48) in
         if n' \<ge> big then (big, i, False) else dtoiLoop s n' (i + 1))
      else if i = 0 then (0, 0, False) else (n, i, True))"

definition dtoi :: "string \<Rightarrow> nat \<times> nat \<times> bool" where
  "dtoi s = dtoiLoop s 0 0"

function parseIPv4Loop :: "nat \<Rightarrow> string \<Rightarrow> IP \<Rightarrow> IP option" where
  "parseIPv4Loop i s p =
     (if i < 4 then
        (if s = [] then None
         else if i > 0 \<and> hd s \<noteq> CHR ''.'' then None
         else (let s1 = (if i > 0 then tl s else s) in
               case dtoi s1 of
                 (n, c, ok) \<Rightarrow>
                   if \<not> ok \<or> n > 255 then None
                   else parseIPv4Loop (i + 1) (drop c s1) (p @ [n])))
      else if s \<noteq> [] then None else Some p)"
  by pat_completeness auto
termination
  by (relation "measure (\<lambda>(i, s, p). 4 - i)") auto

declare parseIPv4Loop.simps [simp del]

definition parseIPv4 :: "string \<Rightarrow> IP option" where
  "parseIPv4 s = parseIPv4Loop 0 s []"

fun parseIPScan :: "string \<Rightarrow> string \<Rightarrow> IP option" where
  "parseIPScan s [] = None"
| "parseIPScan s (c # rest) =
     (if c = CHR ''.'' then parseIPv4 s
      else if c = CHR '':'' then None
      else parseIPScan s rest)"

fun uitoa :: "nat \<Rightarrow> string" where
  "uitoa n = (if n < 10 then [char_of (48 + n)] else uitoa (n div 10) @ [char_of (48 + n mod 10)])"

declare uitoa.simps [simp del]

fun dotted :: "IP \<Rightarrow> string" where
  "dotted [] = []"
| "dotted [n] = uitoa n"
| "dotted (n # m # ip) = uitoa n @ ''.'' @ dotted (m # ip)"

definition hostsLib :: stdlib where
  "hostsLib =
     \<lparr>FieldsFunc_IsSpace = fieldsASCII,
      Map_ToLower = map lowerByte,
      ParseIP = (\<lambda>s. parseIPScan s s),
      IP_String = dotted\<rparr>"

section \<open>The specification's matching rule\<close>

text \<open>
  The specification's words for matching a domain against a group: the exact lower-cased
  name is in the set, or a proper parent label-suffix of it is. \<open>labelSuffixes\<close> lists the
  proper parent label-suffixes of a name, the longest first: what follows each of its dots.
\<close>

primrec labelSuffixes :: "string \<Rightarrow> string list" where
  "labelSuffixes [] = []"
| "labelSuffixes (c # cs) = (if c = CHR ''.'' then cs # labelSuffixes cs else labelSuffixes cs)"

definition specDomainMatches :: "stdlib \<Rightarrow> string list \<Rightarrow> string \<Rightarrow> bool" where
  "specDomainMatches L entries qname =
     (ToLower L qname \<in> set entries \<or>
      list_ex (\<lambda>p. p \<in> set entries) (labelSuffixes (ToLower L qname)))"

section \<open>The resolver chain\<close>

text \<open>
  The caching and the blocking station are exercised by \<^verbatim>\<open>resolver/caching_resolver_test.go\<close>
  and \<^verbatim>\<open>resolver/blocking_resolver_test.go\<close>; their own code and the request, response
  and message types they use are described by the specification only. Every definition of
  this section follows the specification's words, sections 3 and 4.
\<close>

text \<open>Modelled from the spec: the query types; A, AAAA and CNAME are the ones the stations
  tell apart.\<close>

datatype qtype = TypeA | TypeAAAA | TypeCNAME | TypeMX | TypeOther nat

text \<open>Modelled from the spec: the response codes; NOERROR and NXDOMAIN are the ones that
  are cached.\<close>

datatype rcode = NOERROR | NXDOMAIN | RcodeOther nat

text \<open>Modelled from the spec: a resource record of the answer section: owner name, TTL in
  seconds, type, and the data in its textual form (an address or a CNAME target).\<close>

record RR =
  rrName :: string
  rrTTL :: int
  rrType :: qtype
  rrData :: string

text \<open>Modelled from the spec: a DNS message: the question (name and type), the Rcode and the
  answer section.\<close>

record Msg =
  Question :: "string \<times> qtype"
  Rcode :: rcode
  Answer :: "RR list"

text \<open>Modelled from the spec: the classifier tag \<open>RType\<close> of a response.\<close>

datatype ResponseType = RESOLVED | CACHED | BLOCKED

text \<open>Modelled from the spec: the response of a station: message, tag and reason.\<close>

record Response =
  Res :: Msg
  RType :: ResponseType
  Reason :: string

text \<open>Modelled from the spec: the request, with the question of its message, the client IP and
  the client names.\<close>

record Request =
  qName :: string
  qType :: qtype
  clientIP :: string
  clientNames :: "string list"

text \<open>Modelled from the spec: the errors of \<open>Resolve\<close>.\<close>

datatype resolveError = ErrChainBroken | UpstreamError string

text \<open>Modelled from the spec: a station of the chain as its predecessor calls it,
  \<open>Resolve(req) \<rightarrow> (resp, err)\<close>.\<close>

type_synonym station = "Request \<Rightarrow> resolveError + Response"

subsection \<open>The caching station\<close>

text \<open>Modelled from the spec: the caching station (section 4.2), whose code is not among the
  sources. \<open>MinCachingTime\<close> and \<open>MaxCachingTime\<close> are minutes, \<open>None\<close> when unset.
  \<open>defaultCap\<close> is what the specification calls the configured default positive cap, the
  TTL of an NXDOMAIN answer before clamping, in seconds; the specification gives it no
  value. Instants are milliseconds. A result comes with the new cache and the requests
  that were forwarded to the successor.
\<close>

record CachingConfig =
  MinCachingTime :: "int option"
  MaxCachingTime :: "int option"
  defaultCap :: int

text \<open>Modelled from the spec: a cache entry, the stored message and the instant at which it
  expires; the cache is keyed by the lower-cased name and the query type.\<close>

record CacheEntry =
  stored :: Msg
  expiresAt :: int

text \<open>Modelled from the spec: the cache map.\<close>

type_synonym cache = "string \<times> qtype \<rightharpoonup> CacheEntry"

text \<open>Modelled from the spec: \<open>sttl = clamp(rttl, MinCachingTime*60, MaxCachingTime*60)\<close>, an
  unset bound and \<open>MaxCachingTime = 0\<close> clamping nothing. The lower bound is applied first.
\<close>

definition clampTTL :: "CachingConfig \<Rightarrow> int \<Rightarrow> int" where
  "clampTTL c rttl =
     (let lo = (case MinCachingTime c of None \<Rightarrow> rttl | Some m \<Rightarrow> max rttl (m * 60))
      in case MaxCachingTime c of
           None \<Rightarrow> lo
         | Some M \<Rightarrow> if M = 0 then lo else min lo (M * 60))"

text \<open>Modelled from the spec: \<open>rttl\<close>, the minimum TTL across the answer section, and the
  default cap for NXDOMAIN. The specification says nothing of a NOERROR answer with no
  record: \<open>None\<close>, and such an answer is not stored.
\<close>

definition rttlOf :: "CachingConfig \<Rightarrow> Msg \<Rightarrow> int option" where
  "rttlOf c m =
     (if Rcode m = NXDOMAIN then Some (defaultCap c)
      else case map rrTTL (Answer m) of
             [] \<Rightarrow> None
           | t # ts \<Rightarrow> Some (fold min ts t))"

text \<open>Modelled from the spec: the rewriting of every answer TTL of a message.\<close>

definition setTTL :: "int \<Rightarrow> Msg \<Rightarrow> Msg" where
  "setTTL t m = m\<lparr>Answer := map (\<lambda>rr. rr\<lparr>rrTTL := t\<rparr>) (Answer m)\<rparr>"

text \<open>Modelled from the spec: the lookup. \<open>remaining = expiresAt - now\<close> in whole seconds; an
  entry with \<open>remaining \<le> 0\<close> is a miss.
\<close>

definition lookupLive :: "cache \<Rightarrow> string \<times> qtype \<Rightarrow> int \<Rightarrow> (Msg \<times> int) option" where
  "lookupLive ca key now =
     (case ca key of
        None \<Rightarrow> None
      | Some e \<Rightarrow>
          (let remaining = (expiresAt e - now) div 1000
           in if remaining \<le> 0 then None else Some (stored e, remaining)))"

text \<open>Modelled from the spec: the disable switch, \<open>MaxCachingTime < 0\<close>.\<close>

definition cachingDisabled :: "CachingConfig \<Rightarrow> bool" where
  "cachingDisabled c = (case MaxCachingTime c of None \<Rightarrow> False | Some M \<Rightarrow> M < 0)"

text \<open>Modelled from the spec: \<open>Resolve\<close> of the caching station, one request at a time.\<close>

definition cachingResolve ::
  "stdlib \<Rightarrow> CachingConfig \<Rightarrow> station \<Rightarrow> cache \<Rightarrow> int \<Rightarrow> Request
     \<Rightarrow> (resolveError + Response) \<times> cache \<times> Request list" where
  "cachingResolve L c next ca now req =
     (if cachingDisabled c then (next req, ca, [req])
      else if qType req \<noteq> TypeA \<and> qType req \<noteq> TypeAAAA then (next req, ca, [req])
      else
        (let key = (ToLower L (qName req), qType req) in
         case lookupLive ca key now of
           Some (m, remaining) \<Rightarrow>
             (Inr \<lparr>Res = setTTL remaining m, RType = CACHED,
                   Reason = (if Rcode m = NXDOMAIN then ''CACHED NEGATIVE'' else '''')\<rparr>,
              ca, [])
         | None \<Rightarrow>
             (case next req of
                Inl err \<Rightarrow> (Inl err, ca, [req])
              | Inr resp \<Rightarrow>
                  if Rcode (Res resp) = NOERROR \<or> Rcode (Res resp) = NXDOMAIN then
                    (case rttlOf c (Res resp) of
                       None \<Rightarrow> (Inr resp, ca, [req])
                     | Some rttl \<Rightarrow>
                         (let sttl = clampTTL c rttl; m = setTTL sttl (Res resp)
                          in (Inr (resp\<lparr>Res := m\<rparr>),
                              ca(key \<mapsto> \<lparr>stored = m, expiresAt = now + sttl * 1000\<rparr>),
                              [req])))
                  else (Inr resp, ca, [req]))))"

subsection \<open>The blocking station\<close>

text \<open>Modelled from the spec: the blocking mode of the blocking station (section 4.3), whose
  code is not among the sources. The station asks its two list caches through the
  \<^verbatim>\<open>Matcher\<close> interface of \<^verbatim>\<open>lists/list_cache.go\<close>; \<open>inCIDR selector ip\<close> is the
  containment of a client IP in a CIDR selector, which the specification names without
  defining.
\<close>

datatype BlockType = ZeroIP | NxDomain

text \<open>Modelled from the spec: what the station asks of a list cache, the method \<^verbatim>\<open>Match\<close> of
  the \<^verbatim>\<open>Matcher\<close> interface.\<close>

type_synonym Matcher = "string \<Rightarrow> string list \<Rightarrow> bool \<times> string"

text \<open>Modelled from the spec: the configuration of the blocking station (section 6).\<close>

record BlockingConfig =
  BlackLists :: "(string \<times> string list) list"
  WhiteLists :: "(string \<times> string list) list"
  ClientGroupsBlock :: "(string \<times> string list) list"
  blockType :: BlockType

text \<open>Modelled from the spec: the station, its configuration, its two list caches and its
  runtime state \<open>enabled\<close> and \<open>autoReenableAt\<close>.\<close>

record BlockingResolver =
  cfg :: BlockingConfig
  blacklistMatcher :: Matcher
  whitelistMatcher :: Matcher
  inCIDR :: "string \<Rightarrow> string \<Rightarrow> bool"
  enabled :: bool
  autoReenableAt :: "int option"

text \<open>Modelled from the spec: the groups mapped to a client selector, none for a selector that
  is not configured.\<close>

definition lookupGroups :: "(string \<times> string list) list \<Rightarrow> string \<Rightarrow> string list" where
  "lookupGroups m k = (case map_of m k of None \<Rightarrow> [] | Some gs \<Rightarrow> gs)"

text \<open>Modelled from the spec: the group set of a request (step 3).\<close>

definition clientGroups :: "BlockingResolver \<Rightarrow> Request \<Rightarrow> string list" where
  "clientGroups r req =
     remdups
       (concat (map (lookupGroups (ClientGroupsBlock (cfg r))) (clientNames req))
        @ concat (map snd (filter (\<lambda>(sel, gs). sel = clientIP req \<or> inCIDR r sel (clientIP req))
                                  (ClientGroupsBlock (cfg r))))
        @ lookupGroups (ClientGroupsBlock (cfg r)) ''default'')"

text \<open>Modelled from the spec: the synthesized BLOCKED answer.\<close>

definition blockedAnswer :: "BlockType \<Rightarrow> Request \<Rightarrow> Msg" where
  "blockedAnswer bt req =
     (case bt of
        ZeroIP \<Rightarrow>
          \<lparr>Question = (qName req, qType req), Rcode = NOERROR,
           Answer =
             (case qType req of
                TypeA \<Rightarrow> [\<lparr>rrName = qName req, rrTTL = 21600, rrType = TypeA, rrData = ''0.0.0.0''\<rparr>]
              | TypeAAAA \<Rightarrow> [\<lparr>rrName = qName req, rrTTL = 21600, rrType = TypeAAAA, rrData = ''::''\<rparr>]
              | _ \<Rightarrow> [])\<rparr>
      | NxDomain \<Rightarrow> \<lparr>Question = (qName req, qType req), Rcode = NXDOMAIN, Answer = []\<rparr>)"

text \<open>Modelled from the spec: the BLOCKED response around the synthesized answer.\<close>

definition blockedResponse :: "BlockType \<Rightarrow> Request \<Rightarrow> string \<Rightarrow> Response" where
  "blockedResponse bt req reason = \<lparr>Res = blockedAnswer bt req, RType = BLOCKED, Reason = reason\<rparr>"

text \<open>Modelled from the spec: the inspection of the answer section (step 8), record by record.
  A whitelisted address ends the inspection with the upstream response; a blacklisted
  address or CNAME target blocks.
\<close>

datatype verdict = Pass | BlockIP string | BlockCNAME string

text \<open>Modelled from the spec: the loop of step 8 over the answer section.\<close>

fun inspectAnswers :: "BlockingResolver \<Rightarrow> string list \<Rightarrow> RR list \<Rightarrow> verdict" where
  "inspectAnswers r G [] = Pass"
| "inspectAnswers r G (rr # rest) =
     (if rrType rr = TypeA \<or> rrType rr = TypeAAAA then
        (if fst (whitelistMatcher r (rrData rr) G) then Pass
         else if fst (blacklistMatcher r (rrData rr) G)
           then BlockIP (snd (blacklistMatcher r (rrData rr) G))
         else inspectAnswers r G rest)
      else if rrType rr = TypeCNAME then
        (if fst (blacklistMatcher r (rrData rr) G)
           then BlockCNAME (snd (blacklistMatcher r (rrData rr) G))
         else inspectAnswers r G rest)
      else inspectAnswers r G rest)"

text \<open>Modelled from the spec: whether the configuration defines a list for one of the groups
  (step 6).\<close>

definition definesListFor :: "(string \<times> string list) list \<Rightarrow> string list \<Rightarrow> bool" where
  "definesListFor listsByGroup G = list_ex (\<lambda>g. map_of listsByGroup g \<noteq> None) G"

text \<open>Modelled from the spec: step 1, the re-enabling at or after the deadline.\<close>

definition reenable :: "BlockingResolver \<Rightarrow> int \<Rightarrow> BlockingResolver" where
  "reenable r now =
     (case autoReenableAt r of
        None \<Rightarrow> r
      | Some t \<Rightarrow> if \<not> enabled r \<and> t \<le> now then r\<lparr>enabled := True\<rparr> else r)"

text \<open>Modelled from the spec: \<open>Resolve\<close> of the blocking station, steps 1 to 9. A result comes
  with the station's new state and the requests that were forwarded to the successor.
\<close>

definition blockingResolve ::
  "BlockingResolver \<Rightarrow> station \<Rightarrow> int \<Rightarrow> Request
     \<Rightarrow> (resolveError + Response) \<times> BlockingResolver \<times> Request list" where
  "blockingResolve r0 next now req =
     (let r = reenable r0 now; G = clientGroups r req; bt = blockType (cfg r) in
      if \<not> enabled r then (next req, r, [req])
      else if qType req \<noteq> TypeA \<and> qType req \<noteq> TypeAAAA then (next req, r, [req])
      else if fst (whitelistMatcher r (qName req) G) then (next req, r, [req])
      else if fst (blacklistMatcher r (qName req) G) then
        (Inr (blockedResponse bt req
               (''BLOCKED ('' @ snd (blacklistMatcher r (qName req) G) @ '')'')), r, [])
      else if definesListFor (WhiteLists (cfg r)) G \<and> \<not> definesListFor (BlackLists (cfg r)) G then
        (Inr (blockedResponse bt req ''BLOCKED (WHITELIST ONLY)''), r, [])
      else
        (case next req of
           Inl err \<Rightarrow> (Inl err, r, [req])
         | Inr resp \<Rightarrow>
             (case inspectAnswers r G (Answer (Res resp)) of
                Pass \<Rightarrow> (Inr resp, r, [req])
              | BlockIP g \<Rightarrow>
                  (Inr (blockedResponse bt req (''BLOCKED IP ('' @ g @ '')'')), r, [req])
              | BlockCNAME g \<Rightarrow>
                  (Inr (blockedResponse bt req (''BLOCKED CNAME ('' @ g @ '')'')), r, [req]))))"

text \<open>Modelled from the spec: the control surface. A handler gives the HTTP status and the
  station's new state. \<open>parseDuration\<close> reads the \<open>duration\<close> parameter, \<open>None\<close> when it does
  not parse; durations are milliseconds. \<open>simpleDuration\<close> is an instance for evaluation: a
  decimal number and one of the units ms, s, m, h.
\<close>

definition apiBlockingEnable :: "BlockingResolver \<Rightarrow> nat \<times> BlockingResolver" where
  "apiBlockingEnable r = (200, r\<lparr>enabled := True, autoReenableAt := None\<rparr>)"

text \<open>Modelled from the spec: \<open>GET /api/blocking/disable[?duration=...]\<close>.\<close>

definition apiBlockingDisable ::
  "(string \<Rightarrow> int option) \<Rightarrow> BlockingResolver \<Rightarrow> int \<Rightarrow> string option \<Rightarrow> nat \<times> BlockingResolver" where
  "apiBlockingDisable parseDuration r now duration =
     (case duration of
        None \<Rightarrow> (200, r\<lparr>enabled := False, autoReenableAt := None\<rparr>)
      | Some d \<Rightarrow>
          (case parseDuration d of
             None \<Rightarrow> (400, r)
           | Some ms \<Rightarrow> (200, r\<lparr>enabled := False, autoReenableAt := Some (now + ms)\<rparr>)))"

text \<open>Modelled from the spec: \<open>GET /api/blocking/status\<close>.\<close>

definition apiBlockingStatus :: "BlockingResolver \<Rightarrow> nat \<times> bool" where
  "apiBlockingStatus r = (200, enabled r)"

text \<open>Modelled from the spec: an instance of the duration syntax, for evaluation: the units.\<close>

definition unitMs :: "string \<Rightarrow> int option" where
  "unitMs u =
     (if u = ''ms'' then Some 1 else if u = ''s'' then Some 1000
      else if u = ''m'' then Some 60000 else if u = ''h'' then Some 3600000 else None)"

text \<open>Modelled from the spec: an instance of the duration syntax, for evaluation: a decimal
  number followed by a unit.\<close>

definition simpleDuration :: "string \<Rightarrow> int option" where
  "simpleDuration s =
     (let ds = takeWhile isDigit s; u = dropWhile isDigit s in
      if ds = [] then None
      else case unitMs u of
             None \<Rightarrow> None
           | Some f \<Rightarrow> Some (int (foldl (\<lambda>n c. n * 10 + (of_char c - 48)) 0 ds) * f))"

section \<open>The specification's entry of a line\<close>

text \<open>
  The specification's words for the entry of a line: trim the line, tokenize on white space
  and keep the last token. \<open>lastToken\<close> is that token, read off the end of the line: drop
  the white space at the end, then take the characters up to the next white space.
\<close>

definition lastToken :: "string \<Rightarrow> string" where
  "lastToken line = rev (takeWhile (\<lambda>c. \<not> asciiSpace c) (dropWhile asciiSpace (rev line)))"

section \<open>Lower-cased entries\<close>

text \<open>
  A string is lower-cased when \<^verbatim>\<open>strings.ToLower\<close> leaves it as it is. \<open>stdlibLowercases\<close>
  says of the standard library what the list cache relies on: the Unicode path of
  \<^verbatim>\<open>strings.ToLower\<close> gives a lower-cased string, and so does \<^verbatim>\<open>net.IP.String\<close>.
\<close>

definition lowercased :: "stdlib \<Rightarrow> string \<Rightarrow> bool" where
  "lowercased L s = (ToLower L s = s)"

definition stdlibLowercases :: "stdlib \<Rightarrow> bool" where
  "stdlibLowercases L = ((\<forall>s. lowercased L (Map_ToLower L s)) \<and> (\<forall>ip. lowercased L (IP_String L ip)))"

section \<open>Example inputs\<close>

text \<open>
  A world with two local list files and no reachable HTTP source, the sources of two
  groups, and the list cache built from them with a refresh period of five minutes.
\<close>

definition exampleWorld :: world where
  "exampleWorld =
     \<lparr>httpGet = (\<lambda>link. None),
      osOpen = (\<lambda>file.
        if file = ''/tmp/hosts'' then
          Some [''# ad servers'', ''0.0.0.0 Ads.Example.com'', '''', ''  #x'', ''10.1.2.3'',
                ''example.com'', ''example.com  '']
        else if file = ''/tmp/gr2'' then Some [''blocked2.com'', ''DOMAIN1.com'']
        else None)\<rparr>"

definition exampleLinks :: "(string \<times> string list) list" where
  "exampleLinks =
     [(''gr1'', [''file:///tmp/hosts'', ''http://lists.example/missing'']),
      (''gr2'', [''/tmp/gr2''])]"

definition exampleCache :: ListCache where
  "exampleCache = NewListCache hostsLib exampleWorld BLACKLIST exampleLinks 5"

text \<open>
  Example inputs for the resolver chain: an A query for \<open>example.com\<close>, an upstream that
  answers it with one record of TTL 123 and one that answers NXDOMAIN, a caching
  configuration with \<open>MinCachingTime = 5\<close>, and a blocking station whose blacklist and
  whitelist are both the example list cache, with group \<open>gr2\<close> for every client.
\<close>

definition exampleRequest :: Request where
  "exampleRequest =
     \<lparr>qName = ''example.com'', qType = TypeA, clientIP = ''1.2.1.2'', clientNames = [''unknown'']\<rparr>"

definition exampleAnswer :: Msg where
  "exampleAnswer =
     \<lparr>Question = (''example.com'', TypeA), Rcode = NOERROR,
      Answer = [\<lparr>rrName = ''example.com'', rrTTL = 123, rrType = TypeA, rrData = ''123.122.121.120''\<rparr>]\<rparr>"

definition exampleUpstream :: station where
  "exampleUpstream req = Inr \<lparr>Res = exampleAnswer, RType = RESOLVED, Reason = ''''\<rparr>"


definition exampleCaching :: CachingConfig where
  "exampleCaching = \<lparr>MinCachingTime = Some 5, MaxCachingTime = None, defaultCap = 1800\<rparr>"

text \<open>A list cache behind the \<^verbatim>\<open>Matcher\<close> interface.\<close>

definition matcherOf :: "stdlib \<Rightarrow> ListCache \<Rightarrow> Matcher" where
  "matcherOf L b domain groupsToCheck =
     (case Match L b domain groupsToCheck of Inl e \<Rightarrow> (False, '''') | Inr res \<Rightarrow> res)"

definition exampleBlocking :: BlockingResolver where
  "exampleBlocking =
     \<lparr>cfg = \<lparr>BlackLists = exampleLinks, WhiteLists = exampleLinks,
              ClientGroupsBlock = [(''default'', [''gr2''])], blockType = ZeroIP\<rparr>,
      blacklistMatcher = matcherOf hostsLib exampleCache,
      whitelistMatcher = matcherOf hostsLib exampleCache,
      inCIDR = (\<lambda>selector ip. False),
      enabled = True,
      autoReenableAt = None\<rparr>"


definition exampleBlacklisting :: BlockingResolver where
  "exampleBlacklisting =
     \<lparr>cfg = \<lparr>BlackLists = exampleLinks, WhiteLists = [],
              ClientGroupsBlock = [(''default'', [''gr2''])], blockType = ZeroIP\<rparr>,
      blacklistMatcher = matcherOf hostsLib exampleCache,
      whitelistMatcher = (\<lambda>domain groupsToCheck. (False, '''')),
      inCIDR = (\<lambda>selector ip. False),
      enabled = True,
      autoReenableAt = None\<rparr>"

definition blocked2Request :: Request where
  "blocked2Request =
     \<lparr>qName = ''blocked2.com'', qType = TypeA, clientIP = ''1.2.1.2'', clientNames = [''unknown'']\<rparr>"

section \<open>Evaluation\<close>

lemmas hosts_eval =
  processLine_def Fields_def isASCII_def fieldsASCII.simps asciiSpace_def hostsLib_def
  ToLower_def lowerByte_def parseIPv4_def parseIPv4Loop.simps dtoi_def isDigit_def big_def
  Let_def uitoa.simps char_of_def bit_Suc_0_iff HasPrefix_def TrimPrefix_def processFile_def
  readFile_def downloadFile_def createCacheForGroup_def sentResults_def cacheFromChannel_def
  List.map_filter_def exampleWorld_def

lemmas match_eval =
  contains_def SearchStrings_def Search_def SearchLoop.simps index_def ToLower_def
  isASCII_def lowerByte_def char_of_def bit_Suc_0_iff Let_def hostsLib_def

lemma exampleCache_groupCaches:
  "groupCaches exampleCache =
     [''gr1'' \<mapsto> ['''', ''#x'', ''10.1.2.3'', ''ads.example.com'', ''example.com''],
      ''gr2'' \<mapsto> [''blocked2.com'', ''domain1.com'']]"
  by (simp add: exampleCache_def NewListCache_def refresh_def exampleLinks_def hosts_eval)

lemma cacheOf_exampleCache:
  "cacheOf exampleCache ''gr1'' = ['''', ''#x'', ''10.1.2.3'', ''ads.example.com'', ''example.com'']"
  "cacheOf exampleCache ''gr2'' = [''blocked2.com'', ''domain1.com'']"
  "cacheOf exampleCache ''gr3'' = []"
  by (simp_all add: cacheOf_def exampleCache_groupCaches)

section \<open>Binary search\<close>

text \<open>
  The predicate of \<^verbatim>\<open>sort.SearchStrings\<close> is only asked inside the slice, so the search
  never panics and ends between its bounds.
\<close>

lemma SearchLoop_total:
  "j \<le> length a \<Longrightarrow> i \<le> j \<Longrightarrow>
   \<exists>k. SearchLoop (\<lambda>i. case index a i of Inl e \<Rightarrow> Inl e | Inr s \<Rightarrow> Inr (x \<le> s)) i j = Inr k
       \<and> i \<le> k \<and> k \<le> j"
proof (induction "j - i" arbitrary: i j rule: less_induct)
  case less
  let ?f = "\<lambda>i. case index a i of Inl e \<Rightarrow> Inl e | Inr s \<Rightarrow> Inr (x \<le> s)"
  show ?case
  proof (cases "i < j")
    case False
    then show ?thesis using less.prems by (simp add: SearchLoop.simps)
  next
    case True
    define h where "h = (i + j) div 2"
    have hb: "i \<le> h" "h < j" using True by (simp_all add: h_def)
    then have hlen: "h < length a" using less.prems by simp
    show ?thesis
    proof (cases "x \<le> a ! h")
      case ge: True
      from less.hyps[of h i] hb less.prems
      obtain k where "SearchLoop ?f i h = Inr k" "i \<le> k" "k \<le> h"
        by fastforce
      then show ?thesis using True ge hlen hb
        by (subst SearchLoop.simps) (auto simp: index_def h_def Let_def)
    next
      case lt: False
      from less.hyps[of j "h + 1"] hb less.prems
      obtain k where "SearchLoop ?f (h + 1) j = Inr k" "h + 1 \<le> k" "k \<le> j"
        by fastforce
      then show ?thesis using True lt hlen hb
        by (subst SearchLoop.simps) (auto simp: index_def h_def Let_def)
    qed
  qed
qed

text \<open>On a sorted slice the search ends at the first entry that is not below \<open>x\<close>.\<close>

lemma SearchLoop_sorted:
  "sorted a \<Longrightarrow> j \<le> length a \<Longrightarrow> i \<le> j \<Longrightarrow>
   \<forall>m<i. a ! m < x \<Longrightarrow> \<forall>m. j \<le> m \<and> m < length a \<longrightarrow> x \<le> a ! m \<Longrightarrow>
   SearchLoop (\<lambda>i. case index a i of Inl e \<Rightarrow> Inl e | Inr s \<Rightarrow> Inr (x \<le> s)) i j = Inr k \<Longrightarrow>
   (\<forall>m<k. a ! m < x) \<and> (\<forall>m. k \<le> m \<and> m < length a \<longrightarrow> x \<le> a ! m)"
proof (induction "j - i" arbitrary: i j rule: less_induct)
  case less
  let ?f = "\<lambda>i. case index a i of Inl e \<Rightarrow> Inl e | Inr s \<Rightarrow> Inr (x \<le> s)"
  show ?case
  proof (cases "i < j")
    case False
    then have "k = i" "i = j" using less.prems by (simp_all add: SearchLoop.simps)
    then show ?thesis using less.prems by simp
  next
    case True
    define h where "h = (i + j) div 2"
    have hb: "i \<le> h" "h < j" using True by (simp_all add: h_def)
    then have hlen: "h < length a" using less.prems by simp
    show ?thesis
    proof (cases "x \<le> a ! h")
      case ge: True
      have step: "SearchLoop ?f i h = Inr k"
        using less.prems(6) True ge hlen
        by (subst (asm) SearchLoop.simps) (simp add: index_def h_def Let_def)
      have up: "\<forall>m. h \<le> m \<and> m < length a \<longrightarrow> x \<le> a ! m"
      proof (intro allI impI)
        fix m assume "h \<le> m \<and> m < length a"
        then have "a ! h \<le> a ! m" using less.prems(1) by (simp add: sorted_iff_nth_mono)
        then show "x \<le> a ! m" using ge by simp
      qed
      show ?thesis
        using less.hyps[of h i, OF _ less.prems(1) _ _ less.prems(4) up step] hb hlen by simp
    next
      case lt: False
      have step: "SearchLoop ?f (h + 1) j = Inr k"
        using less.prems(6) True lt hlen
        by (subst (asm) SearchLoop.simps) (simp add: index_def h_def Let_def)
      have low: "\<forall>m<h + 1. a ! m < x"
      proof (intro allI impI)
        fix m assume "m < h + 1"
        then have "a ! m \<le> a ! h" using less.prems(1) hlen by (simp add: sorted_iff_nth_mono)
        then show "a ! m < x" using lt by simp
      qed
      show ?thesis
        using less.hyps[of j "h + 1", OF _ less.prems(1) less.prems(2) _ low less.prems(5) step] hb
        by simp
    qed
  qed
qed

lemma SearchStrings_total: "\<exists>k. SearchStrings a x = Inr k \<and> k \<le> length a"
  using SearchLoop_total[of "length a" a 0 x] by (auto simp: SearchStrings_def Search_def)

lemma SearchStrings_sorted:
  assumes "sorted a" and "SearchStrings a x = Inr k"
  shows "k < length a \<and> a ! k = x \<longleftrightarrow> x \<in> set a"
proof -
  have loop: "SearchLoop (\<lambda>i. case index a i of Inl e \<Rightarrow> Inl e | Inr s \<Rightarrow> Inr (x \<le> s)) 0 (length a) = Inr k"
    using assms(2) by (simp add: SearchStrings_def Search_def)
  have low: "\<forall>m<0. a ! m < x" by simp
  have up: "\<forall>m. length a \<le> m \<and> m < length a \<longrightarrow> x \<le> a ! m" by auto
  have b: "(\<forall>m<k. a ! m < x) \<and> (\<forall>m. k \<le> m \<and> m < length a \<longrightarrow> x \<le> a ! m)"
    by (rule SearchLoop_sorted[OF assms(1) le_refl le0 low up loop])
  show ?thesis
  proof
    assume "k < length a \<and> a ! k = x"
    then show "x \<in> set a" by (metis nth_mem)
  next
    assume "x \<in> set a"
    then obtain m where m: "m < length a" "a ! m = x" by (auto simp: in_set_conv_nth)
    have "k \<le> m" using b m by (metis less_irrefl not_le)
    then have klen: "k < length a" using m by simp
    have "a ! k \<le> a ! m" using assms(1) \<open>k \<le> m\<close> m(1) by (simp add: sorted_iff_nth_mono)
    moreover have "x \<le> a ! k" using b klen by simp
    ultimately show "k < length a \<and> a ! k = x" using klen m by simp
  qed
qed

section \<open>\<^verbatim>\<open>contains\<close> and \<^verbatim>\<open>Match\<close>\<close>

lemma contains_total:
  "\<exists>found. contains L domain cache = Inr found \<and> (found \<longrightarrow> ToLower L domain \<in> set cache)"
proof -
  obtain k where k: "SearchStrings cache domain = Inr k" "k \<le> length cache"
    using SearchStrings_total by blast
  show ?thesis
  proof (cases "k < length cache")
    case True
    then have "contains L domain cache = Inr (cache ! k = ToLower L domain)"
      using k by (simp add: contains_def index_def)
    moreover have "cache ! k \<in> set cache" using True by simp
    ultimately show ?thesis by auto
  next
    case False
    then show ?thesis using k by (auto simp: contains_def)
  qed
qed

lemma contains_nil: "contains L domain [] = Inr False"
  by (simp add: contains_def SearchStrings_def Search_def SearchLoop.simps)

lemma contains_sorted:
  assumes "sorted cache" and "ToLower L domain = domain"
  shows "contains L domain cache = Inr (domain \<in> set cache)"
proof -
  obtain k where k: "SearchStrings cache domain = Inr k" "k \<le> length cache"
    using SearchStrings_total by blast
  have "k < length cache \<and> cache ! k = domain \<longleftrightarrow> domain \<in> set cache"
    using SearchStrings_sorted[OF assms(1) k(1)] .
  then show ?thesis using k assms(2) by (auto simp: contains_def index_def)
qed

lemma Match_result:
  "\<exists>found g. Match L b domain groupsToCheck = Inr (found, g)
     \<and> (found \<longrightarrow> g \<in> set groupsToCheck \<and> ToLower L domain \<in> set (cacheOf b g))
     \<and> (\<not> found \<longrightarrow> g = '''')"
proof (induction groupsToCheck)
  case Nil
  then show ?case by auto
next
  case (Cons g gs)
  obtain found where f: "contains L domain (cacheOf b g) = Inr found"
    "found \<longrightarrow> ToLower L domain \<in> set (cacheOf b g)"
    using contains_total by blast
  show ?case
  proof (cases found)
    case True
    then show ?thesis using f by auto
  next
    case False
    then show ?thesis using f Cons.IH by auto
  qed
qed

lemma Match_sorted:
  assumes "\<forall>g\<in>set groupsToCheck. sorted (cacheOf b g)" and "ToLower L domain = domain"
  shows "Match L b domain groupsToCheck =
           (case find (\<lambda>g. domain \<in> set (cacheOf b g)) groupsToCheck of
              None \<Rightarrow> Inr (False, '''')
            | Some g \<Rightarrow> Inr (True, g))"
  using assms(1)
proof (induction groupsToCheck)
  case Nil
  then show ?case by simp
next
  case (Cons g gs)
  have "contains L domain (cacheOf b g) = Inr (domain \<in> set (cacheOf b g))"
    using Cons.prems assms(2) by (simp add: contains_sorted)
  then show ?case using Cons by simp
qed
section \<open>Lower-casing\<close>

lemma of_char_lowerByte_upper:
  assumes "CHR ''A'' \<le> c" and "c \<le> CHR ''Z''"
  shows "of_char (lowerByte c) = (of_char c + 32 :: nat)"
proof -
  have "(of_char c :: nat) \<le> 90" using assms(2) by (simp add: less_eq_char_def)
  then have "(of_char c + 32) mod 256 = (of_char c + 32 :: nat)" by simp
  moreover have "of_char (char_of (of_char c + 32 :: nat)) = ((of_char c + 32) mod 256 :: nat)"
    by (simp only: of_char_of)
  ultimately show ?thesis using assms by (simp add: lowerByte_def)
qed

lemma lowerByte_idem: "lowerByte (lowerByte c) = lowerByte c"
proof (cases "CHR ''A'' \<le> c \<and> c \<le> CHR ''Z''")
  case True
  then have "(of_char (lowerByte c) :: nat) \<ge> 97"
    by (simp add: of_char_lowerByte_upper) (simp add: less_eq_char_def)
  then have "\<not> (CHR ''A'' \<le> lowerByte c \<and> lowerByte c \<le> CHR ''Z'')"
    by (simp add: less_eq_char_def)
  then show ?thesis unfolding lowerByte_def[of "lowerByte c"] by (rule if_not_P)
next
  case False
  then have "lowerByte c = c" unfolding lowerByte_def by (rule if_not_P)
  then show ?thesis by simp
qed

lemma of_char_lowerByte_ascii: "of_char c < (128::nat) \<Longrightarrow> of_char (lowerByte c) < (128::nat)"
proof (cases "CHR ''A'' \<le> c \<and> c \<le> CHR ''Z''")
  case True
  then have "(of_char c :: nat) \<le> 90" by (simp add: less_eq_char_def)
  then show ?thesis using True by (simp add: of_char_lowerByte_upper)
next
  case False
  then have "lowerByte c = c" unfolding lowerByte_def by (rule if_not_P)
  then show "of_char c < (128::nat) \<Longrightarrow> ?thesis" by simp
qed

lemma isASCII_map_lowerByte: "isASCII s \<Longrightarrow> isASCII (map lowerByte s)"
  by (induction s) (simp_all add: isASCII_def of_char_lowerByte_ascii)

lemma lowercased_Nil: "lowercased L []"
  by (simp add: lowercased_def ToLower_def isASCII_def)

lemma lowercased_ToLower:
  assumes "stdlibLowercases L"
  shows "lowercased L (ToLower L s)"
proof (cases "isASCII s")
  case True
  then show ?thesis
    by (simp add: lowercased_def ToLower_def isASCII_map_lowerByte lowerByte_idem)
next
  case False
  then have "ToLower L s = Map_ToLower L s" by (simp add: ToLower_def)
  then show ?thesis using assms by (simp add: stdlibLowercases_def)
qed

lemma lowercased_processLine:
  assumes "stdlibLowercases L"
  shows "lowercased L (processLine L line)"
proof (cases "Fields L line = []")
  case True
  then show ?thesis by (simp add: processLine_def lowercased_Nil)
next
  case False
  show ?thesis
  proof (cases "ParseIP L (last (Fields L line))")
    case None
    then show ?thesis using False assms by (simp add: processLine_def lowercased_ToLower)
  next
    case (Some ip)
    then show ?thesis using False assms by (simp add: processLine_def stdlibLowercases_def)
  qed
qed

section \<open>\<^verbatim>\<open>processFile\<close>\<close>

lemma scanLoop_concat:
  "scanLoop L lines result =
     result @ concat (map (\<lambda>line. if HasPrefix line ''#'' then [] else [processLine L line]) lines)"
  by (induction lines arbitrary: result) simp_all

lemma scanLoop_filter:
  "scanLoop L lines [] = map (processLine L) (filter (\<lambda>line. \<not> HasPrefix line ''#'') lines)"
  by (induction lines) (simp_all add: scanLoop_concat)

lemma processFile_lowercased:
  assumes "stdlibLowercases L" and "processFile L W link = Some res"
  shows "list_all (lowercased L) res"
proof -
  obtain lines where "res = scanLoop L lines []"
    using assms(2) by (auto simp: processFile_def split: option.splits if_splits)
  then show ?thesis
    using assms(1) by (simp add: scanLoop_filter list_all_iff lowercased_processLine)
qed

section \<open>\<^verbatim>\<open>createCacheForGroup\<close> and \<^verbatim>\<open>refresh\<close>\<close>

lemma mergeEntries_inv:
  "keys = set cache \<Longrightarrow> distinct cache \<Longrightarrow> mergeEntries res (keys, cache) = (keys', cache') \<Longrightarrow>
   keys' = set cache' \<and> distinct cache' \<and> set cache' = set cache \<union> set res"
proof (induction res arbitrary: keys cache)
  case Nil
  then show ?case by auto
next
  case (Cons entry res)
  show ?case
  proof (cases "entry \<in> keys")
    case True
    then have "mergeEntries res (keys, cache) = (keys', cache')" using Cons.prems(3) by simp
    from Cons.IH[OF Cons.prems(1) Cons.prems(2) this] True Cons.prems(1) show ?thesis by auto
  next
    case False
    then have step: "mergeEntries res (insert entry keys, cache @ [entry]) = (keys', cache')"
      using Cons.prems(3) by simp
    have "insert entry keys = set (cache @ [entry])" using Cons.prems(1) by simp
    moreover have "distinct (cache @ [entry])" using Cons.prems(1,2) False by simp
    ultimately show ?thesis using Cons.IH[OF _ _ step] by auto
  qed
qed

lemma drain_inv:
  "keys = set cache \<Longrightarrow> distinct cache \<Longrightarrow> drain c (keys, cache) = (keys', cache') \<Longrightarrow>
   keys' = set cache' \<and> distinct cache' \<and> set cache' = set cache \<union> \<Union> (set ` set c)"
proof (induction c arbitrary: keys cache)
  case Nil
  then show ?case by auto
next
  case (Cons res c)
  obtain k1 c1 where m: "mergeEntries res (keys, cache) = (k1, c1)" by (cases "mergeEntries res (keys, cache)")
  have inv1: "k1 = set c1 \<and> distinct c1 \<and> set c1 = set cache \<union> set res"
    using mergeEntries_inv[OF Cons.prems(1) Cons.prems(2) m] .
  have "drain c (k1, c1) = (keys', cache')" using Cons.prems(3) m by simp
  then have "keys' = set cache' \<and> distinct cache' \<and> set cache' = set c1 \<union> \<Union> (set ` set c)"
    using Cons.IH inv1 by blast
  then show ?case using inv1 by auto
qed

lemma cacheFromChannel_props:
  "sorted (cacheFromChannel c) \<and> distinct (cacheFromChannel c)
   \<and> set (cacheFromChannel c) = \<Union> (set ` set c)"
proof -
  obtain k1 c1 where d: "drain c ({}, []) = (k1, c1)" by (cases "drain c ({}, [])")
  have "k1 = set c1 \<and> distinct c1 \<and> set c1 = set [] \<union> \<Union> (set ` set c)"
    by (rule drain_inv[OF _ _ d]) simp_all
  then show ?thesis by (simp add: cacheFromChannel_def d)
qed

text \<open>The order in which the fetches finish does not change the vector of the group.\<close>

lemma cacheFromChannel_order:
  assumes "set c = set c'"
  shows "cacheFromChannel c = cacheFromChannel c'"
proof -
  have "set (cacheFromChannel c) = set (cacheFromChannel c')"
    using assms by (simp add: cacheFromChannel_props)
  then show ?thesis
    using cacheFromChannel_props[of c] cacheFromChannel_props[of c']
    by (metis sorted_distinct_set_unique)
qed

lemma createCacheForGroup_props:
  assumes "stdlibLowercases L"
  shows "sorted (createCacheForGroup L W links) \<and> distinct (createCacheForGroup L W links)
         \<and> list_all (lowercased L) (createCacheForGroup L W links)"
proof -
  have "lowercased L e" if "e \<in> set (createCacheForGroup L W links)" for e
  proof -
    from that obtain res where res: "res \<in> set (sentResults L W links)" "e \<in> set res"
      by (auto simp: createCacheForGroup_def cacheFromChannel_props)
    then obtain link where "processFile L W link = Some res"
      by (auto simp: sentResults_def List.map_filter_def)
    then have "list_all (lowercased L) res"
      using assms processFile_lowercased by blast
    then show ?thesis using res(2) by (simp add: list_all_iff)
  qed
  then show ?thesis
    by (simp add: createCacheForGroup_def cacheFromChannel_props list_all_iff)
qed

text \<open>A group whose sources all fail has the empty vector.\<close>

lemma createCacheForGroup_all_failed:
  assumes "\<forall>link\<in>set links. processFile L W link = None"
  shows "createCacheForGroup L W links = []"
proof -
  have "sentResults L W links = []"
    using assms by (induction links) (simp_all add: sentResults_def List.map_filter_def)
  then show ?thesis by (simp add: createCacheForGroup_def cacheFromChannel_def)
qed

lemma refreshLoop_None:
  "g \<notin> fst ` set gl \<Longrightarrow> refreshLoop L W gl caches g = caches g"
  by (induction gl arbitrary: caches) auto

lemma refreshLoop_Some:
  "(g, links) \<in> set gl \<Longrightarrow>
   \<exists>links'. (g, links') \<in> set gl \<and> refreshLoop L W gl caches g = Some (createCacheForGroup L W links')"
proof (induction gl arbitrary: caches links)
  case Nil
  then show ?case by simp
next
  case (Cons p gl)
  obtain g' links' where p: "p = (g', links')" by (cases p)
  have step: "refreshLoop L W (p # gl) caches =
                refreshLoop L W gl (caches(g' \<mapsto> createCacheForGroup L W links'))"
    using p by simp
  show ?case
  proof (cases "g \<in> fst ` set gl")
    case True
    then obtain l where "(g, l) \<in> set gl" by auto
    from Cons.IH[OF this, of "caches(g' \<mapsto> createCacheForGroup L W links')"]
    obtain l' where "(g, l') \<in> set gl"
      "refreshLoop L W gl (caches(g' \<mapsto> createCacheForGroup L W links')) g =
         Some (createCacheForGroup L W l')"
      by blast
    then have "(g, l') \<in> set (p # gl) \<and>
               refreshLoop L W (p # gl) caches g = Some (createCacheForGroup L W l')"
      using step by simp
    then show ?thesis by blast
  next
    case False
    then have eq: "g = g'" "links = links'" using Cons.prems p by force+
    have "refreshLoop L W (p # gl) caches g = Some (createCacheForGroup L W links')"
      using False eq step by (simp add: refreshLoop_None)
    moreover have "(g, links') \<in> set (p # gl)" using eq p by simp
    ultimately show ?thesis by blast
  qed
qed

lemma refresh_group_props:
  assumes "stdlibLowercases L" and "(g, links) \<in> set (groupToLinks b)"
  shows "\<exists>v. groupCaches (refresh L W b) g = Some v \<and> sorted v \<and> distinct v
             \<and> list_all (lowercased L) v"
proof -
  obtain links' where "groupCaches (refresh L W b) g = Some (createCacheForGroup L W links')"
    using refreshLoop_Some[OF assms(2), of L W "groupCaches b"] by (auto simp: refresh_def)
  then show ?thesis using createCacheForGroup_props[OF assms(1)] by simp
qed

text \<open>The first load, during construction, is a refresh.\<close>

lemma NewListCache_group_props:
  assumes "stdlibLowercases L" and "(g, ls) \<in> set links"
  shows "\<exists>v. groupCaches (NewListCache L W t links r) g = Some v \<and> sorted v \<and> distinct v
             \<and> list_all (lowercased L) v"
proof -
  let ?b = "\<lparr>groupCaches = Map.empty, groupToLinks = links,
             refreshPeriod = (if r = 0 then defaultRefreshPeriod else r * Minute)\<rparr>"
  have "(g, ls) \<in> set (groupToLinks ?b)" using assms(2) by simp
  from refresh_group_props[OF assms(1) this, of W] show ?thesis
    by (simp add: NewListCache_def Let_def)
qed

section \<open>\<^verbatim>\<open>strings.Fields\<close> on ASCII input\<close>

lemma dropWhile_all: "(\<forall>c\<in>set s. P c) \<Longrightarrow> dropWhile P s = []"
  by (simp add: dropWhile_eq_Nil_conv)

lemma fieldsASCII_all_space: "(\<forall>c\<in>set s. asciiSpace c) \<Longrightarrow> fieldsASCII s = []"
  by (subst fieldsASCII.simps) (simp add: dropWhile_all)

lemma fieldsASCII_Cons:
  assumes "dropWhile asciiSpace s = c # cs"
  shows "fieldsASCII s =
           (c # takeWhile (\<lambda>x. \<not> asciiSpace x) cs) # fieldsASCII (dropWhile (\<lambda>x. \<not> asciiSpace x) cs)"
  by (subst fieldsASCII.simps) (simp add: assms)

lemma fieldsASCII_Nil_iff: "fieldsASCII s = [] \<longleftrightarrow> (\<forall>c\<in>set s. asciiSpace c)"
proof
  assume "fieldsASCII s = []"
  then have "dropWhile asciiSpace s = []"
    by (cases "dropWhile asciiSpace s") (simp_all add: fieldsASCII_Cons)
  then show "\<forall>c\<in>set s. asciiSpace c" by (simp add: dropWhile_eq_Nil_conv)
qed (rule fieldsASCII_all_space)

lemma lastToken_append_space:
  assumes "\<forall>c\<in>set ys. asciiSpace c"
  shows "lastToken (xs @ ys) = lastToken xs"
proof -
  have "dropWhile asciiSpace (rev ys @ rev xs) = dropWhile asciiSpace (rev xs)"
    using assms by (intro dropWhile_append2) simp
  then show ?thesis by (simp add: lastToken_def)
qed

lemma lastToken_space_token:
  assumes "\<forall>c\<in>set pre. asciiSpace c" and "\<forall>c\<in>set tok. \<not> asciiSpace c"
  shows "lastToken (pre @ tok) = tok"
proof (cases "tok = []")
  case True
  show ?thesis using assms(1) by (simp add: lastToken_def True dropWhile_all)
next
  case False
  then have "\<not> asciiSpace (hd (rev tok))" using assms(2) by (simp add: hd_rev)
  then have d: "dropWhile asciiSpace (rev tok @ rev pre) = rev tok @ rev pre"
    using False by (cases "rev tok") simp_all
  have t1: "takeWhile (\<lambda>c. \<not> asciiSpace c) (rev tok @ rev pre) =
              rev tok @ takeWhile (\<lambda>c. \<not> asciiSpace c) (rev pre)"
    using assms(2) by (intro takeWhile_append2) simp
  have t2: "takeWhile (\<lambda>c. \<not> asciiSpace c) (rev pre) = []"
  proof (cases "rev pre")
    case Nil
    then show ?thesis by simp
  next
    case (Cons a as)
    then have "a \<in> set pre" by (metis list.set_intros(1) set_rev)
    then show ?thesis using assms(1) Cons by simp
  qed
  have t: "takeWhile (\<lambda>c. \<not> asciiSpace c) (rev tok @ rev pre) = rev tok"
    by (simp add: t1 t2)
  show ?thesis by (simp add: lastToken_def d t)
qed

lemma lastToken_prefix:
  assumes "asciiSpace (hd ys)" and "\<exists>c\<in>set ys. \<not> asciiSpace c"
  shows "lastToken (xs @ ys) = lastToken ys"
proof -
  have ne: "ys \<noteq> []" using assms(2) by auto
  define D where "D = dropWhile asciiSpace (rev ys)"
  have d: "dropWhile asciiSpace (rev ys @ rev xs) = D @ rev xs"
    using assms(2) by (auto simp: D_def dropWhile_append1)
  have Dne: "D \<noteq> []" using assms(2) by (auto simp: D_def dropWhile_eq_Nil_conv)
  have "last D = last (rev ys)"
    unfolding D_def using Dne[unfolded D_def]
    by (metis append_Nil2 last_appendR takeWhile_dropWhile_id)
  then have "asciiSpace (last D)" using assms(1) ne by (simp add: last_rev)
  then have "\<exists>c\<in>set D. \<not> \<not> asciiSpace c" using Dne by (metis last_in_set)
  then have "takeWhile (\<lambda>c. \<not> asciiSpace c) (D @ rev xs) = takeWhile (\<lambda>c. \<not> asciiSpace c) D"
    by (auto simp: takeWhile_append1)
  then show ?thesis by (simp add: lastToken_def d D_def)
qed

text \<open>On ASCII input the last field of \<^verbatim>\<open>strings.Fields\<close> is the last token of the line.\<close>

lemma fieldsASCII_last: "fieldsASCII s \<noteq> [] \<Longrightarrow> last (fieldsASCII s) = lastToken s"
proof (induction s rule: fieldsASCII.induct)
  case (1 s)
  then obtain c cs where dw: "dropWhile asciiSpace s = c # cs"
    by (cases "dropWhile asciiSpace s") (simp_all add: fieldsASCII_all_space dropWhile_eq_Nil_conv)
  define pre where "pre = takeWhile asciiSpace s"
  define tok where "tok = c # takeWhile (\<lambda>x. \<not> asciiSpace x) cs"
  define rest where "rest = dropWhile (\<lambda>x. \<not> asciiSpace x) cs"
  have s: "s = pre @ tok @ rest"
    using dw takeWhile_dropWhile_id[of asciiSpace s] by (simp add: pre_def tok_def rest_def)
  have pre: "\<forall>x\<in>set pre. asciiSpace x" by (auto simp: pre_def dest: set_takeWhileD)
  have "\<not> asciiSpace c" using dw by (metis hd_dropWhile list.sel(1) list.distinct(1))
  then have tok: "\<forall>x\<in>set tok. \<not> asciiSpace x" by (auto simp: tok_def dest: set_takeWhileD)
  have f: "fieldsASCII s = tok # fieldsASCII rest"
    by (simp add: fieldsASCII_Cons[OF dw] tok_def rest_def)
  show ?case
  proof (cases "fieldsASCII rest = []")
    case True
    then have "\<forall>x\<in>set rest. asciiSpace x" by (simp add: fieldsASCII_Nil_iff)
    then have "lastToken s = lastToken (pre @ tok)"
      using lastToken_append_space[of rest "pre @ tok"] by (simp add: s)
    then show ?thesis using True f pre tok by (simp add: lastToken_space_token)
  next
    case False
    then have nsp: "\<exists>x\<in>set rest. \<not> asciiSpace x" by (simp add: fieldsASCII_Nil_iff)
    then have "rest \<noteq> []" by auto
    then have "asciiSpace (hd rest)"
      unfolding rest_def by (metis hd_dropWhile)
    then have "lastToken s = lastToken rest"
      using lastToken_prefix[of rest "pre @ tok"] nsp by (simp add: s)
    moreover have "last (fieldsASCII rest) = lastToken rest"
      using "1.IH"[OF dw] False by (simp add: rest_def)
    ultimately show ?thesis using f False by simp
  qed
qed
section \<open>The instance \<open>hostsLib\<close>\<close>

lemma ToLower_plain:
  assumes "\<forall>c\<in>set s. of_char c < (65::nat)"
  shows "ToLower L s = s"
proof -
  have "isASCII s" using assms by (induction s) (simp_all add: isASCII_def)
  moreover have "lowerByte c = c" if "c \<in> set s" for c
  proof -
    have "\<not> (CHR ''A'' \<le> c \<and> c \<le> CHR ''Z'')"
      using assms that by (auto simp: less_eq_char_def)
    then show ?thesis unfolding lowerByte_def by (rule if_not_P)
  qed
  ultimately show ?thesis by (simp add: ToLower_def map_idI)
qed

lemma of_char_digit: "d < 10 \<Longrightarrow> of_char (char_of (48 + d :: nat)) = 48 + d"
proof -
  assume "d < 10"
  then have "(48 + d) mod 256 = 48 + d" by simp
  moreover have "of_char (char_of (48 + d :: nat)) = ((48 + d) mod 256 :: nat)"
    by (simp only: of_char_of)
  ultimately show ?thesis by simp
qed

lemma uitoa_chars: "c \<in> set (uitoa n) \<Longrightarrow> of_char c < (65::nat)"
proof (induction n rule: uitoa.induct)
  case (1 n)
  show ?case
  proof (cases "n < 10")
    case True
    then have "uitoa n = [char_of (48 + n)]" by (subst uitoa.simps) simp
    then show ?thesis using "1.prems" True by (simp add: of_char_digit)
  next
    case False
    then have u: "uitoa n = uitoa (n div 10) @ [char_of (48 + n mod 10)]"
      by (subst uitoa.simps) simp
    have "of_char (char_of (48 + n mod 10 :: nat)) < (65::nat)"
      using of_char_digit[of "n mod 10"] by simp
    then show ?thesis using "1.prems" "1.IH"[OF False] u by auto
  qed
qed

lemma dotted_chars: "c \<in> set (dotted ip) \<Longrightarrow> of_char c < (65::nat)"
  by (induction ip rule: dotted.induct) (auto dest: uitoa_chars)

lemma hostsLib_lowercases: "stdlibLowercases hostsLib"
proof -
  have "lowercased hostsLib (map lowerByte s)" for s
    by (simp add: lowercased_def ToLower_def hostsLib_def lowerByte_idem)
  moreover have "lowercased hostsLib (dotted ip)" for ip
    by (simp add: lowercased_def ToLower_plain dotted_chars)
  ultimately show ?thesis by (simp add: stdlibLowercases_def hostsLib_def)
qed

section \<open>The refresh period\<close>

lemma sint_times_Minute:
  assumes "- 153722867 \<le> sint r" and "sint r \<le> 153722867"
  shows "sint (r * Minute) = sint r * 60000000000"
proof -
  have m: "sint Minute = 60000000000" by (simp add: Minute_def)
  have "sint (r * Minute) = signed_take_bit 63 (sint r * sint Minute)"
    by (simp add: sint_word_ariths)
  also have "\<dots> = sint r * 60000000000"
    unfolding m using assms by (intro signed_take_bit_int_eq_self) simp_all
  finally show ?thesis .
qed

lemma sint_defaultRefreshPeriod: "sint defaultRefreshPeriod = 14400000000000"
  by (simp add: defaultRefreshPeriod_def Hour_def Minute_def)

lemma refreshPeriod_NewListCache:
  "refreshPeriod (NewListCache L W t links r) = (if r = 0 then defaultRefreshPeriod else r * Minute)"
  by (simp add: NewListCache_def refresh_def Let_def)

lemma groupCaches_NewListCache:
  "groupCaches (NewListCache L W t links r) = refreshLoop L W links Map.empty"
  by (simp add: NewListCache_def refresh_def Let_def)

lemma refreshTimes_NewListCache:
  assumes "- 153722867 \<le> sint r" and "sint r \<le> 153722867"
  shows "refreshTimes (NewListCache L W t links r) T =
           (if r = 0 then tickerTimes 14400000000000 T
            else if 0 < sint r then tickerTimes (sint r * 60000000000) T
            else [])"
proof (cases "r = 0")
  case True
  then show ?thesis
    by (simp add: refreshTimes_def refreshPeriod_NewListCache sint_defaultRefreshPeriod)
next
  case False
  then show ?thesis
    by (simp add: refreshTimes_def refreshPeriod_NewListCache sint_times_Minute[OF assms])
qed

text \<open>A ticker of period \<open>d\<close> ticks at the multiples of \<open>d\<close>, in order.\<close>

lemma tickerTimes_nth:
  "k < length (tickerTimes d T) \<Longrightarrow> tickerTimes d T ! k = (int k + 1) * d"
  by (simp add: tickerTimes_def nth_map_upt del: upt_Suc)

lemma length_tickerTimes: "length (tickerTimes d T) = nat (T div d)"
  by (simp add: tickerTimes_def del: upt_Suc)
section \<open>Claims about the list cache\<close>

text \<open>
  C1, as the code has it. \<^verbatim>\<open>ListCache.Match\<close> does no matching of parent label-suffixes:
  for a queried domain that is already lower-cased, and group vectors that are sorted (as
  \<^verbatim>\<open>createCacheForGroup\<close> leaves them), \<^verbatim>\<open>Match\<close> reports a match exactly when the
  queried domain itself is an entry of the vector of one of the groups to check, and it
  reports the first such group.
\<close>

theorem Match_exact_entry:
  assumes "\<forall>g\<in>set groupsToCheck. sorted (cacheOf b g)" and "ToLower L domain = domain"
  shows "Match L b domain groupsToCheck =
           (case find (\<lambda>g. domain \<in> set (cacheOf b g)) groupsToCheck of
              None \<Rightarrow> Inr (False, '''')
            | Some g \<Rightarrow> Inr (True, g))"
  using assms by (rule Match_sorted)

theorem Match_exact_entry_witness:
  "Match hostsLib exampleCache ''example.com'' [''gr3'', ''gr2'', ''gr1''] = Inr (True, ''gr1'')"
proof -
  have s: "\<forall>g\<in>set [''gr3'', ''gr2'', ''gr1'']. sorted (cacheOf exampleCache g)"
    by (simp add: cacheOf_exampleCache)
  have l: "ToLower hostsLib ''example.com'' = ''example.com''"
    by (simp add: ToLower_def isASCII_def lowerByte_def)
  show ?thesis
    using Match_exact_entry[OF s l] by (simp add: cacheOf_exampleCache)
qed

text \<open>
  C1 as stated fails: the entry \<open>example.com\<close> is in the vector of group \<open>gr1\<close>, the
  specification's rule matches the query \<open>foo.example.com\<close> against it, and
  \<^verbatim>\<open>Match\<close> reports no match.
\<close>

theorem Match_parent_suffix_counterexample:
  "cacheOf exampleCache ''gr1'' = ['''', ''#x'', ''10.1.2.3'', ''ads.example.com'', ''example.com'']
   \<and> specDomainMatches hostsLib (cacheOf exampleCache ''gr1'') ''foo.example.com''
   \<and> Match hostsLib exampleCache ''foo.example.com'' [''gr1''] = Inr (False, '''')"
  by (simp add: cacheOf_exampleCache specDomainMatches_def match_eval)

text \<open>
  A query with upper-case letters is searched for as it is written and compared
  lower-cased: the search for \<open>EXAMPLE.com\<close> ends before the entry \<open>example.com\<close>.
\<close>

lemma Match_uppercase_query:
  "ToLower hostsLib ''EXAMPLE.com'' \<in> set (cacheOf exampleCache ''gr1'')
   \<and> Match hostsLib exampleCache ''EXAMPLE.com'' [''gr1''] = Inr (False, '''')"
  by (simp add: cacheOf_exampleCache match_eval)

text \<open>
  C10. \<^verbatim>\<open>Match\<close> is total: the binary search ends inside the bounds of the vector and
  never reads out of range, so \<^verbatim>\<open>Match\<close> returns for every domain and every list of
  groups. A group that reports a match has a vector in the cache, not empty, that holds
  the lower-cased domain; so a group with no vector or an empty one never matches, and
  when no vector of the groups to check holds the lower-cased domain the result is
  \<open>(false, "")\<close>.
\<close>

theorem Match_total:
  "(\<exists>k. SearchStrings cache domain = Inr k \<and> k \<le> length cache)
   \<and> (\<exists>found g. Match L b domain groupsToCheck = Inr (found, g)
         \<and> (found \<longrightarrow> g \<in> set groupsToCheck
               \<and> (\<exists>v. groupCaches b g = Some v \<and> v \<noteq> [] \<and> ToLower L domain \<in> set v))
         \<and> (\<not> found \<longrightarrow> g = '''')
         \<and> ((\<forall>g\<in>set groupsToCheck. ToLower L domain \<notin> set (cacheOf b g)) \<longrightarrow> \<not> found))"
proof -
  obtain found g where m: "Match L b domain groupsToCheck = Inr (found, g)"
    "found \<longrightarrow> g \<in> set groupsToCheck \<and> ToLower L domain \<in> set (cacheOf b g)"
    "\<not> found \<longrightarrow> g = ''''"
    using Match_result by blast
  have "\<exists>v. groupCaches b g = Some v \<and> v \<noteq> [] \<and> ToLower L domain \<in> set v" if found
  proof -
    have "ToLower L domain \<in> set (cacheOf b g)" using m(2) that by simp
    then show ?thesis by (cases "groupCaches b g") (auto simp: cacheOf_def)
  qed
  moreover have "\<not> found" if "\<forall>g\<in>set groupsToCheck. ToLower L domain \<notin> set (cacheOf b g)"
    using m(2) that by auto
  ultimately show ?thesis using m SearchStrings_total by blast
qed

theorem Match_total_witness:
  "Match hostsLib exampleCache ''example.org'' [''gr3'', ''gr2''] = Inr (False, '''')"
proof -
  have "\<forall>g\<in>set [''gr3'', ''gr2'']. ToLower hostsLib ''example.org'' \<notin> set (cacheOf exampleCache g)"
    by (simp add: cacheOf_exampleCache ToLower_def isASCII_def lowerByte_def)
  then show ?thesis
    using Match_total[of "[]" "''example.org''" hostsLib exampleCache "[''gr3'', ''gr2'']"]
    by auto
qed

text \<open>
  C2, as the code has it. \<^verbatim>\<open>processFile\<close> trims nothing: a line that begins with \<open>#\<close>
  contributes no entry and every other line contributes exactly one, the value of
  \<^verbatim>\<open>processLine\<close>. That value is the empty string for a line with no field, and otherwise
  the last field of the line, as \<^verbatim>\<open>ip.String()\<close> if \<^verbatim>\<open>net.ParseIP\<close> accepts it and
  lower-cased if not. On an ASCII line the line has no field exactly when it is white
  space only, and the last field is the last white-space-separated token of the line.
\<close>

theorem processFile_entries:
  "((if HasPrefix link ''http'' then downloadFile W link else readFile W link) = Some lines \<longrightarrow>
      processFile L W link =
        Some (concat (map (\<lambda>line. if HasPrefix line ''#'' then [] else [processLine L line]) lines)))
   \<and> (Fields L line = [] \<longrightarrow> processLine L line = '''')
   \<and> (Fields L line \<noteq> [] \<longrightarrow>
        processLine L line =
          (case ParseIP L (last (Fields L line)) of
             Some ip \<Rightarrow> IP_String L ip
           | None \<Rightarrow> ToLower L (last (Fields L line))))
   \<and> (isASCII line \<longrightarrow>
        (Fields L line = [] \<longleftrightarrow> list_all asciiSpace line)
        \<and> (Fields L line \<noteq> [] \<longrightarrow> last (Fields L line) = lastToken line))"
proof -
  have "processFile L W link =
          Some (concat (map (\<lambda>line. if HasPrefix line ''#'' then [] else [processLine L line]) lines))"
    if "(if HasPrefix link ''http'' then downloadFile W link else readFile W link) = Some lines"
    using that by (simp add: processFile_def scanLoop_concat)
  moreover have "Fields L line = [] \<longrightarrow> processLine L line = ''''"
    by (simp add: processLine_def)
  moreover have "Fields L line \<noteq> [] \<longrightarrow>
        processLine L line =
          (case ParseIP L (last (Fields L line)) of
             Some ip \<Rightarrow> IP_String L ip
           | None \<Rightarrow> ToLower L (last (Fields L line)))"
    by (simp add: processLine_def Let_def)
  moreover have "(Fields L line = [] \<longleftrightarrow> list_all asciiSpace line)
        \<and> (Fields L line \<noteq> [] \<longrightarrow> last (Fields L line) = lastToken line)" if "isASCII line"
    using that by (simp add: Fields_def fieldsASCII_Nil_iff list_all_iff fieldsASCII_last)
  ultimately show ?thesis by blast
qed

theorem processFile_entries_witness:
  "processFile hostsLib exampleWorld ''file:///tmp/hosts'' =
     Some [''ads.example.com'', '''', ''#x'', ''10.1.2.3'', ''example.com'', ''example.com'']
   \<and> processLine hostsLib ''0.0.0.0 Ads.Example.com'' = ''ads.example.com''
   \<and> lastToken ''0.0.0.0 Ads.Example.com'' = ''Ads.Example.com''"
proof -
  have src: "(if HasPrefix ''file:///tmp/hosts'' ''http'' then downloadFile exampleWorld ''file:///tmp/hosts''
              else readFile exampleWorld ''file:///tmp/hosts'') =
             Some [''# ad servers'', ''0.0.0.0 Ads.Example.com'', '''', ''  #x'', ''10.1.2.3'',
                   ''example.com'', ''example.com  '']"
    by (simp add: HasPrefix_def readFile_def TrimPrefix_def exampleWorld_def)
  have a: "isASCII ''0.0.0.0 Ads.Example.com''" by (simp add: isASCII_def)
  have f: "Fields hostsLib ''0.0.0.0 Ads.Example.com'' = [''0.0.0.0'', ''Ads.Example.com'']"
    by (simp add: hosts_eval)
  have p: "ParseIP hostsLib ''Ads.Example.com'' = None"
    by (simp add: hosts_eval)
  have t: "ToLower hostsLib ''Ads.Example.com'' = ''ads.example.com''"
    by (simp add: hosts_eval)
  note inst = processFile_entries[of "''file:///tmp/hosts''" exampleWorld _ hostsLib "''0.0.0.0 Ads.Example.com''"]
  have 1: "processFile hostsLib exampleWorld ''file:///tmp/hosts'' =
     Some [''ads.example.com'', '''', ''#x'', ''10.1.2.3'', ''example.com'', ''example.com'']"
    using inst src by (simp add: hosts_eval)
  have 2: "processLine hostsLib ''0.0.0.0 Ads.Example.com'' = ''ads.example.com''"
    using inst f p t by simp
  have 3: "lastToken ''0.0.0.0 Ads.Example.com'' = ''Ads.Example.com''"
    using inst a f by simp
  show ?thesis using 1 2 3 by simp
qed

text \<open>
  C2 as stated fails: an empty line and a line whose first character after white space is
  \<open>#\<close> each contribute an entry, the empty string and \<open>#x\<close>.
\<close>

theorem processFile_blank_line_counterexample:
  "scanLoop hostsLib ['''', ''  #x''] [] = ['''', ''#x'']"
  by (simp add: hosts_eval)

text \<open>
  C7. After \<^verbatim>\<open>refresh\<close>, which \<^verbatim>\<open>NewListCache\<close> runs for the first load and
  \<^verbatim>\<open>periodicUpdate\<close> at every tick, every configured group has a vector that is sorted,
  has no duplicate, and holds lower-cased entries only. The last part rests on the standard
  library: \<^verbatim>\<open>strings.ToLower\<close> and \<^verbatim>\<open>net.IP.String\<close> give lower-cased strings.
\<close>

theorem refresh_sorted_distinct_lowercased:
  assumes "stdlibLowercases L" and "(g, links) \<in> set (groupToLinks b)"
  shows "\<exists>v. groupCaches (refresh L W b) g = Some v \<and> sorted v \<and> distinct v
             \<and> list_all (lowercased L) v"
  using assms by (rule refresh_group_props)

theorem refresh_sorted_distinct_lowercased_witness:
  "\<exists>v. groupCaches (refresh hostsLib exampleWorld exampleCache) ''gr2'' = Some v
       \<and> sorted v \<and> distinct v \<and> list_all (lowercased hostsLib) v"
proof -
  have "(''gr2'', [''/tmp/gr2'']) \<in> set (groupToLinks exampleCache)"
    by (simp add: exampleCache_def NewListCache_def refresh_def exampleLinks_def)
  then show ?thesis
    by (rule refresh_sorted_distinct_lowercased[OF hostsLib_lowercases])
qed

text \<open>
  C8, as the code has it. The period is a \<^verbatim>\<open>time.Duration\<close>, 64 bits of nanoseconds, and
  the product of the configured minutes and \<^verbatim>\<open>time.Minute\<close> wraps around. For a configured
  value of at most 153722867 minutes in absolute value (the largest that a
  \<^verbatim>\<open>time.Duration\<close> holds): the first load runs during construction; with 0 the refresh
  runs every four hours; with a negative value no periodic refresh runs and the cache
  stays as the first load left it; with a positive value the refresh runs every that many
  minutes.
\<close>

theorem NewListCache_refresh_period:
  assumes "- 153722867 \<le> sint r" and "sint r \<le> 153722867"
  shows "groupCaches (NewListCache L W t links r) = refreshLoop L W links Map.empty
   \<and> (r = 0 \<longrightarrow> refreshTimes (NewListCache L W t links r) T = tickerTimes (4 * 3600 * 1000000000) T)
   \<and> (sint r < 0 \<longrightarrow> refreshTimes (NewListCache L W t links r) T = []
         \<and> periodicUpdate L Wt (NewListCache L W t links r) T = NewListCache L W t links r)
   \<and> (0 < sint r \<longrightarrow>
         refreshTimes (NewListCache L W t links r) T = tickerTimes (sint r * (60 * 1000000000)) T)"
proof -
  have z: "sint r = 0 \<longleftrightarrow> r = 0" by (metis sint_0 signed_word_eqI)
  have "sint r < 0 \<longrightarrow> refreshTimes (NewListCache L W t links r) T = []"
    using z by (auto simp: refreshTimes_NewListCache[OF assms])
  moreover have "sint r < 0 \<longrightarrow>
      periodicUpdate L Wt (NewListCache L W t links r) T = NewListCache L W t links r"
    using calculation by (simp add: periodicUpdate_def)
  moreover have "r = 0 \<longrightarrow>
      refreshTimes (NewListCache L W t links r) T = tickerTimes (4 * 3600 * 1000000000) T"
    using refreshTimes_NewListCache[OF assms, of L W t links T] by auto
  moreover have "0 < sint r \<longrightarrow>
      refreshTimes (NewListCache L W t links r) T = tickerTimes (sint r * (60 * 1000000000)) T"
    using z by (auto simp: refreshTimes_NewListCache[OF assms])
  ultimately show ?thesis by (simp add: groupCaches_NewListCache)
qed

theorem NewListCache_refresh_period_witness:
  "refreshTimes exampleCache 900000000000 = [300000000000, 600000000000, 900000000000]
   \<and> refreshTimes (NewListCache hostsLib exampleWorld BLACKLIST exampleLinks (- 1)) 900000000000 = []
   \<and> refreshTimes (NewListCache hostsLib exampleWorld BLACKLIST exampleLinks 0) 30000000000000
       = [14400000000000, 28800000000000]"
proof -
  have t1: "tickerTimes (5 * (60 * 1000000000)) 900000000000 = [300000000000, 600000000000, 900000000000]"
    by (simp add: tickerTimes_def upt_rec)
  have t2: "tickerTimes (4 * 3600 * 1000000000) 30000000000000 = [14400000000000, 28800000000000]"
    by (simp add: tickerTimes_def upt_rec)
  have 1: "refreshTimes exampleCache 900000000000 = [300000000000, 600000000000, 900000000000]"
    using NewListCache_refresh_period[of 5 hostsLib exampleWorld BLACKLIST exampleLinks 900000000000] t1
    by (simp add: exampleCache_def)
  have 2: "refreshTimes (NewListCache hostsLib exampleWorld BLACKLIST exampleLinks (- 1)) 900000000000 = []"
    using NewListCache_refresh_period[of "- 1" hostsLib exampleWorld BLACKLIST exampleLinks 900000000000]
    by simp
  have 3: "refreshTimes (NewListCache hostsLib exampleWorld BLACKLIST exampleLinks 0) 30000000000000
       = [14400000000000, 28800000000000]"
    using NewListCache_refresh_period[of 0 hostsLib exampleWorld BLACKLIST exampleLinks 30000000000000] t2
    by simp
  show ?thesis using 1 2 3 by simp
qed

text \<open>
  C8 as stated fails: 153722868 minutes is a positive period, its first tick would be at
  the instant 9223372080000000000, and the product with \<^verbatim>\<open>time.Minute\<close> wraps to a
  negative duration, with which no periodic refresh runs.
\<close>

theorem NewListCache_refresh_period_counterexample:
  "0 < sint (153722868 :: 64 word)
   \<and> tickerTimes (153722868 * (60 * 1000000000)) 9223372080000000000 = [9223372080000000000]
   \<and> sint (refreshPeriod (NewListCache hostsLib exampleWorld BLACKLIST exampleLinks 153722868)) < 0
   \<and> refreshTimes (NewListCache hostsLib exampleWorld BLACKLIST exampleLinks 153722868)
        9223372080000000000 = []"
  by (simp add: refreshTimes_def refreshPeriod_NewListCache Minute_def tickerTimes_def upt_rec)

section \<open>Claims about the caching station\<close>

lemma fold_min_Min: "fold min ts (t::int) = Min (set (t # ts))"
  by (rule Min.set_eq_fold[symmetric])

lemma rttlOf_NOERROR:
  assumes "Rcode m = NOERROR" and "Answer m \<noteq> []"
  shows "rttlOf c m = Some (Min (rrTTL ` set (Answer m)))"
proof -
  obtain rr rrs where a: "Answer m = rr # rrs" using assms(2) by (cases "Answer m") auto
  have "fold min (map rrTTL rrs) (rrTTL rr) = Min (set (rrTTL rr # map rrTTL rrs))"
    by (rule fold_min_Min)
  then show ?thesis using assms(1) a by (simp add: rttlOf_def)
qed

lemma lookupLive_upd:
  "lookupLive (ca(key \<mapsto> \<lparr>stored = m, expiresAt = e\<rparr>)) key now =
     (if (e - now) div 1000 \<le> 0 then None else Some (m, (e - now) div 1000))"
  by (simp add: lookupLive_def Let_def)

lemma Rcode_setTTL: "Rcode (setTTL t m) = Rcode m"
  by (simp add: setTTL_def)

lemma setTTL_setTTL: "setTTL t (setTTL t' m) = setTTL t m"
  by (simp add: setTTL_def comp_def)

text \<open>A miss that is answered NOERROR or NXDOMAIN is stored and served with the stored TTL.\<close>

lemma cachingResolve_miss:
  assumes "\<not> cachingDisabled c" and "qType req = TypeA \<or> qType req = TypeAAAA"
    and "lookupLive ca (ToLower L (qName req), qType req) now = None"
    and "next req = Inr resp" and "Rcode (Res resp) = NOERROR \<or> Rcode (Res resp) = NXDOMAIN"
    and "rttlOf c (Res resp) = Some rttl"
  shows "cachingResolve L c next ca now req =
           (Inr (resp\<lparr>Res := setTTL (clampTTL c rttl) (Res resp)\<rparr>),
            ca((ToLower L (qName req), qType req) \<mapsto>
                 \<lparr>stored = setTTL (clampTTL c rttl) (Res resp),
                  expiresAt = now + clampTTL c rttl * 1000\<rparr>),
            [req])"
  using assms by (auto simp: cachingResolve_def Let_def)

text \<open>A live entry is served from the cache, with no call to the successor.\<close>

lemma cachingResolve_hit:
  assumes "\<not> cachingDisabled c" and "qType req = TypeA \<or> qType req = TypeAAAA"
    and "lookupLive ca (ToLower L (qName req), qType req) now = Some (m, remaining)"
  shows "cachingResolve L c next ca now req =
           (Inr \<lparr>Res = setTTL remaining m, RType = CACHED,
                 Reason = (if Rcode m = NXDOMAIN then ''CACHED NEGATIVE'' else '''')\<rparr>,
            ca, [])"
  using assms by (auto simp: cachingResolve_def Let_def)

text \<open>
  C3. With \<open>MinCachingTime = 5\<close> and no upper bound, an A query that misses the cache and
  is answered upstream with minimum TTL 123 is served as RESOLVED with every answer TTL
  set to 300; the same request \<open>w\<close> milliseconds later, within the window, is served as
  CACHED with the remaining whole seconds (299 after 500 ms), and the upstream is called
  once across both requests.
\<close>

theorem cachingResolve_min_ttl:
  assumes "MinCachingTime c = Some 5" and "MaxCachingTime c = None"
    and "qType req = TypeA"
    and "next req = Inr \<lparr>Res = m, RType = RESOLVED, Reason = reason\<rparr>"
    and "Rcode m = NOERROR" and "Answer m \<noteq> []" and "Min (rrTTL ` set (Answer m)) = 123"
    and "lookupLive ca (ToLower L (qName req), TypeA) now = None"
    and "0 \<le> w" and "w \<le> 299000"
    and "cachingResolve L c next ca now req = (r1, ca1, calls1)"
    and "cachingResolve L c next ca1 (now + w) req = (r2, ca2, calls2)"
  shows "r1 = Inr \<lparr>Res = setTTL 300 m, RType = RESOLVED, Reason = reason\<rparr>
       \<and> list_all (\<lambda>rr. rrTTL rr = 300) (Answer (setTTL 300 m))
       \<and> r2 = Inr \<lparr>Res = setTTL ((300000 - w) div 1000) m, RType = CACHED, Reason = ''''\<rparr>
       \<and> (w = 500 \<longrightarrow> r2 = Inr \<lparr>Res = setTTL 299 m, RType = CACHED, Reason = ''''\<rparr>)
       \<and> calls1 @ calls2 = [req]"
proof -
  let ?key = "(ToLower L (qName req), qType req)"
  have nd: "\<not> cachingDisabled c" using assms(2) by (simp add: cachingDisabled_def)
  have cl: "clampTTL c 123 = 300" using assms(1,2) by (simp add: clampTTL_def)
  have rt: "rttlOf c m = Some 123" using assms(5,6,7) by (simp add: rttlOf_NOERROR)
  have first: "cachingResolve L c next ca now req =
      (Inr \<lparr>Res = setTTL 300 m, RType = RESOLVED, Reason = reason\<rparr>,
       ca(?key \<mapsto> \<lparr>stored = setTTL 300 m, expiresAt = now + 300 * 1000\<rparr>), [req])"
    using cachingResolve_miss[of c req ca L now "next" "\<lparr>Res = m, RType = RESOLVED, Reason = reason\<rparr>" 123]
      nd assms(3,4,5,8) rt cl by simp
  then have r1: "r1 = Inr \<lparr>Res = setTTL 300 m, RType = RESOLVED, Reason = reason\<rparr>"
    and ca1: "ca1 = ca(?key \<mapsto> \<lparr>stored = setTTL 300 m, expiresAt = now + 300 * 1000\<rparr>)"
    and c1: "calls1 = [req]"
    using assms(11) by simp_all
  have pos: "0 < (300000 - w) div 1000" using assms(10) by simp
  have live: "lookupLive ca1 ?key (now + w) = Some (setTTL 300 m, (300000 - w) div 1000)"
    using pos by (simp add: ca1 lookupLive_upd)
  have second: "cachingResolve L c next ca1 (now + w) req =
      (Inr \<lparr>Res = setTTL ((300000 - w) div 1000) m, RType = CACHED, Reason = ''''\<rparr>, ca1, [])"
    using cachingResolve_hit[OF nd _ live, of "next"] assms(3,5)
    by (simp add: Rcode_setTTL setTTL_setTTL)
  then have r2: "r2 = Inr \<lparr>Res = setTTL ((300000 - w) div 1000) m, RType = CACHED, Reason = ''''\<rparr>"
    and c2: "calls2 = []"
    using assms(12) by simp_all
  have all: "list_all (\<lambda>rr. rrTTL rr = 300) (Answer (setTTL 300 m))"
    by (simp add: setTTL_def list_all_iff)
  show ?thesis using r1 r2 c1 c2 all by simp
qed

theorem cachingResolve_min_ttl_witness:
  "cachingResolve hostsLib exampleCaching exampleUpstream Map.empty 1000 exampleRequest =
     (Inr \<lparr>Res = setTTL 300 exampleAnswer, RType = RESOLVED, Reason = ''''\<rparr>,
      [(''example.com'', TypeA) \<mapsto> \<lparr>stored = setTTL 300 exampleAnswer, expiresAt = 301000\<rparr>],
      [exampleRequest])
   \<and> fst (cachingResolve hostsLib exampleCaching exampleUpstream
            [(''example.com'', TypeA) \<mapsto> \<lparr>stored = setTTL 300 exampleAnswer, expiresAt = 301000\<rparr>]
            1500 exampleRequest) =
       Inr \<lparr>Res = setTTL 299 exampleAnswer, RType = CACHED, Reason = ''''\<rparr>"
proof -
  let ?ca1 = "[(''example.com'', TypeA) \<mapsto> \<lparr>stored = setTTL 300 exampleAnswer, expiresAt = 301000\<rparr>]"
  have lower: "ToLower hostsLib ''example.com'' = ''example.com''"
    by (simp add: ToLower_def isASCII_def lowerByte_def)
  have first: "cachingResolve hostsLib exampleCaching exampleUpstream Map.empty 1000 exampleRequest =
     (Inr \<lparr>Res = setTTL 300 exampleAnswer, RType = RESOLVED, Reason = ''''\<rparr>, ?ca1, [exampleRequest])"
    by (simp add: cachingResolve_def cachingDisabled_def exampleCaching_def exampleRequest_def
        exampleUpstream_def lookupLive_def rttlOf_def clampTTL_def lower exampleAnswer_def Let_def)
  obtain r2 ca2 calls2 where second:
    "cachingResolve hostsLib exampleCaching exampleUpstream ?ca1 (1000 + 500) exampleRequest = (r2, ca2, calls2)"
    by (metis prod_cases3)
  have "r2 = Inr \<lparr>Res = setTTL 299 exampleAnswer, RType = CACHED, Reason = ''''\<rparr>"
    using cachingResolve_min_ttl[of exampleCaching exampleRequest exampleUpstream exampleAnswer "''''"
        Map.empty hostsLib 1000 500 _ ?ca1 "[exampleRequest]" r2 ca2 calls2] first second
    by (simp add: exampleCaching_def exampleRequest_def exampleUpstream_def exampleAnswer_def
        lookupLive_def)
  then show ?thesis using first second by simp
qed



section \<open>Claims about the blocking station\<close>

lemma clientGroups_reenable: "clientGroups (reenable r now) req = clientGroups r req"
  by (simp add: clientGroups_def reenable_def split: option.splits)

lemma reenable_fields:
  "cfg (reenable r now) = cfg r"
  "whitelistMatcher (reenable r now) = whitelistMatcher r"
  "blacklistMatcher (reenable r now) = blacklistMatcher r"
  by (simp_all add: reenable_def split: option.splits)



lemma Res_blockedResponse: "Res (blockedResponse bt req reason) = blockedAnswer bt req"
  by (simp add: blockedResponse_def)

text \<open>
  Every response that the blocking station tags BLOCKED, when its successor returns
  none, is the synthesized one, for an A or AAAA query.
\<close>

lemma blockingResolve_blocked:
  assumes "fst (blockingResolve r next now req) = Inr resp" and "RType resp = BLOCKED"
    and "\<forall>resp'. next req = Inr resp' \<longrightarrow> RType resp' \<noteq> BLOCKED"
  shows "Res resp = blockedAnswer (blockType (cfg r)) req
         \<and> (qType req = TypeA \<or> qType req = TypeAAAA)"
proof -
  let ?r = "reenable r now"
  let ?G = "clientGroups r req"
  let ?bt = "blockType (cfg r)"
  have up: "next req \<noteq> Inr resp" using assms(2,3) by auto
  show ?thesis
  proof (cases "\<not> enabled ?r \<or> (qType req \<noteq> TypeA \<and> qType req \<noteq> TypeAAAA)
                \<or> fst (whitelistMatcher r (qName req) ?G)")
    case True
    then have "fst (blockingResolve r next now req) = next req"
      by (auto simp: blockingResolve_def Let_def clientGroups_reenable reenable_fields)
    then show ?thesis using assms(1) up by simp
  next
    case False
    then have en: "enabled ?r" and qt: "qType req = TypeA \<or> qType req = TypeAAAA"
      and wl: "\<not> fst (whitelistMatcher r (qName req) ?G)" by auto
    show ?thesis
    proof (cases "fst (blacklistMatcher r (qName req) ?G)
                  \<or> (definesListFor (WhiteLists (cfg r)) ?G \<and> \<not> definesListFor (BlackLists (cfg r)) ?G)")
      case True
      then have "\<exists>reason. fst (blockingResolve r next now req) = Inr (blockedResponse ?bt req reason)"
        using en qt wl
        by (auto simp: blockingResolve_def Let_def clientGroups_reenable reenable_fields)
      then show ?thesis using assms(1) qt by (auto simp: Res_blockedResponse)
    next
      case False
      then have post: "fst (blockingResolve r next now req) =
          (case next req of
             Inl err \<Rightarrow> Inl err
           | Inr upr \<Rightarrow>
               (case inspectAnswers ?r ?G (Answer (Res upr)) of
                  Pass \<Rightarrow> Inr upr
                | BlockIP g \<Rightarrow> Inr (blockedResponse ?bt req (''BLOCKED IP ('' @ g @ '')''))
                | BlockCNAME g \<Rightarrow> Inr (blockedResponse ?bt req (''BLOCKED CNAME ('' @ g @ '')''))))"
        using en qt wl
        by (auto simp: blockingResolve_def Let_def clientGroups_reenable reenable_fields
            split: sum.splits verdict.splits)
      have "\<exists>reason. resp = blockedResponse ?bt req reason"
        using assms(1) up unfolding post
        by (auto split: sum.splits verdict.splits)
      then show ?thesis using qt by (auto simp: Res_blockedResponse)
    qed
  qed
qed

text \<open>
  C5. A response that the blocking station synthesizes as BLOCKED is determined by the
  BlockType and the question: with ZeroIP the Rcode is NOERROR and the answer section is
  one record for the queried name with TTL 21600, an A record \<open>0.0.0.0\<close> for an A query
  and an AAAA record \<open>::\<close> for an AAAA query; with NxDomain the Rcode is NXDOMAIN and the
  answer section is empty.
\<close>

theorem blockingResolve_blocked_answer:
  assumes "fst (blockingResolve r next now req) = Inr resp" and "RType resp = BLOCKED"
    and "\<forall>resp'. next req = Inr resp' \<longrightarrow> RType resp' \<noteq> BLOCKED"
  shows "Res resp = blockedAnswer (blockType (cfg r)) req
       \<and> (qType req = TypeA \<or> qType req = TypeAAAA)
       \<and> (blockType (cfg r) = ZeroIP \<longrightarrow>
            Rcode (Res resp) = NOERROR
            \<and> (qType req = TypeA \<longrightarrow>
                 Answer (Res resp) =
                   [\<lparr>rrName = qName req, rrTTL = 21600, rrType = TypeA, rrData = ''0.0.0.0''\<rparr>])
            \<and> (qType req = TypeAAAA \<longrightarrow>
                 Answer (Res resp) =
                   [\<lparr>rrName = qName req, rrTTL = 21600, rrType = TypeAAAA, rrData = ''::''\<rparr>]))
       \<and> (blockType (cfg r) = NxDomain \<longrightarrow> Rcode (Res resp) = NXDOMAIN \<and> Answer (Res resp) = [])"
proof -
  have b: "Res resp = blockedAnswer (blockType (cfg r)) req" "qType req = TypeA \<or> qType req = TypeAAAA"
    using blockingResolve_blocked[OF assms] by simp_all
  show ?thesis using b by (auto simp: blockedAnswer_def)
qed

theorem blockingResolve_blocked_answer_witness:
  "fst (blockingResolve exampleBlacklisting exampleUpstream 0 blocked2Request) =
     Inr (blockedResponse ZeroIP blocked2Request ''BLOCKED (gr2)'')
   \<and> Rcode (Res (blockedResponse ZeroIP blocked2Request ''BLOCKED (gr2)'')) = NOERROR
   \<and> Answer (Res (blockedResponse ZeroIP blocked2Request ''BLOCKED (gr2)'')) =
       [\<lparr>rrName = ''blocked2.com'', rrTTL = 21600, rrType = TypeA, rrData = ''0.0.0.0''\<rparr>]"
proof -
  let ?resp = "blockedResponse ZeroIP blocked2Request ''BLOCKED (gr2)''"
  have g: "clientGroups exampleBlacklisting blocked2Request = [''gr2'']"
    by (simp add: clientGroups_def exampleBlacklisting_def blocked2Request_def lookupGroups_def)
  have m: "matcherOf hostsLib exampleCache ''blocked2.com'' [''gr2''] = (True, ''gr2'')"
    by (simp add: matcherOf_def cacheOf_exampleCache match_eval)
  have r: "reenable exampleBlacklisting 0 = exampleBlacklisting"
    by (simp add: reenable_def exampleBlacklisting_def)
  have e: "fst (blockingResolve exampleBlacklisting exampleUpstream 0 blocked2Request) = Inr ?resp"
    by (simp add: blockingResolve_def r g Let_def)
       (simp add: exampleBlacklisting_def blocked2Request_def m)
  have t: "RType ?resp = BLOCKED" by (simp add: blockedResponse_def)
  have u: "\<forall>resp'. exampleUpstream blocked2Request = Inr resp' \<longrightarrow> RType resp' \<noteq> BLOCKED"
    by (auto simp: exampleUpstream_def)
  have b: "blockType (cfg exampleBlacklisting) = ZeroIP" "qType blocked2Request = TypeA"
    "qName blocked2Request = ''blocked2.com''"
    by (simp_all add: exampleBlacklisting_def blocked2Request_def)
  show ?thesis
    using blockingResolve_blocked_answer[OF e t u] e b by (simp add: Res_blockedResponse)
qed

text \<open>
  C9. A call of the disable endpoint with a \<open>duration\<close> parameter that does not parse gives
  HTTP 400 and the state of the station as it was: \<open>enabled\<close> and \<open>autoReenableAt\<close> are
  unchanged.
\<close>

theorem apiBlockingDisable_bad_duration:
  assumes "parseDuration d = None"
  shows "apiBlockingDisable parseDuration r now (Some d) = (400, r)"
  using assms by (simp add: apiBlockingDisable_def)

theorem apiBlockingDisable_bad_duration_witness:
  "simpleDuration ''xyz'' = None
   \<and> apiBlockingDisable simpleDuration exampleBlocking 0 (Some ''xyz'') = (400, exampleBlocking)"
proof -
  have p: "simpleDuration ''xyz'' = None"
    by (simp add: simpleDuration_def isDigit_def)
  show ?thesis
    using apiBlockingDisable_bad_duration[of simpleDuration "''xyz''" exampleBlocking 0] p by simp
qed

lemma simpleDuration_500ms: "simpleDuration ''500ms'' = Some 500"
  by (simp add: simpleDuration_def isDigit_def unitMs_def)

lemma apiBlockingDisable_duration:
  "apiBlockingDisable simpleDuration r now (Some ''500ms'') =
     (200, r\<lparr>enabled := False, autoReenableAt := Some (now + 500)\<rparr>)"
  by (simp add: apiBlockingDisable_def simpleDuration_500ms)

end
